theory Spec2Isabelle
  imports Complex_Main "HOL-Library.Multiset"
begin

section \<open>JavaScript numbers and exceptions\<close>

text \<open>
  The three algorithm modules compute on JavaScript numbers, which are IEEE 754
  binary64 values. A value is a finite double (held as the real number it denotes),
  \<^verbatim>\<open>Infinity\<close>, \<^verbatim>\<open>-Infinity\<close> or \<^verbatim>\<open>NaN\<close>. The sign of
  zero is not kept: no statement of the three modules tells the two zeros apart (every
  division is guarded by a positive divisor).
\<close>

datatype jsnum = Fin real | PInf | NInf | NaN

text \<open>
  Rounding to the nearest double, ties to the even significand. \<open>expo a\<close> is the
  exponent of a positive \<open>a\<close>, the \<open>k\<close> with \<open>2 powi k \<le> a < 2 powi (k + 1)\<close>.
  \<open>rne\<close> rounds to the nearest integer, ties to even. \<open>mag a\<close> rounds \<open>a\<close>
  to 53 significant bits (fewer below \<open>2 powi (- 1022)\<close>, where the spacing stays
  \<open>2 powi (- 1074)\<close>), and \<open>fl\<close> is the rounding of a real result: it overflows
  to an infinity from \<open>2 ^ 1024\<close> on.
\<close>

function expo :: "real \<Rightarrow> int" where
  "expo a = (if 2 \<le> a then expo (a / 2) + 1 else if 0 < a \<and> a < 1 then expo (a * 2) - 1 else 0)"
  by pat_completeness auto
termination
proof (relation "measure (\<lambda>a. if 1 \<le> a then nat \<lfloor>log 2 a\<rfloor> else nat \<lfloor>- log 2 a\<rfloor> + 1)")
  show "wf (measure (\<lambda>a. if 1 \<le> a then nat \<lfloor>log 2 a\<rfloor> else nat \<lfloor>- log 2 a\<rfloor> + 1))"
    by simp
next
  fix a :: real assume a: "2 \<le> a"
  then have "log 2 (a / 2) = log 2 a - 1" by (simp add: log_divide)
  moreover from a have "1 \<le> log 2 a" by (simp add: le_log_iff)
  ultimately have "\<lfloor>log 2 (a / 2)\<rfloor> = \<lfloor>log 2 a\<rfloor> - 1" "1 \<le> \<lfloor>log 2 a\<rfloor>"
    by linarith+
  with a show "(a / 2, a) \<in> measure (\<lambda>a. if 1 \<le> a then nat \<lfloor>log 2 a\<rfloor> else nat \<lfloor>- log 2 a\<rfloor> + 1)"
    by simp
next
  fix a :: real assume "\<not> 2 \<le> a" and a: "0 < a \<and> a < 1"
  then have l: "log 2 (a * 2) = log 2 a + 1" by (simp add: log_mult)
  from a have neg: "log 2 a < 0" by simp
  show "(a * 2, a) \<in> measure (\<lambda>a. if 1 \<le> a then nat \<lfloor>log 2 a\<rfloor> else nat \<lfloor>- log 2 a\<rfloor> + 1)"
  proof (cases "1 \<le> a * 2")
    case True
    with a have "log 2 (a * 2) < 1" by (simp add: log_less_iff)
    moreover from True have "0 \<le> log 2 (a * 2)" by simp
    ultimately have "\<lfloor>log 2 (a * 2)\<rfloor> = 0" by linarith
    with True a show ?thesis by simp
  next
    case False
    with a have "log 2 (a * 2) < 0" by simp
    with l have "\<lfloor>- log 2 (a * 2)\<rfloor> = \<lfloor>- log 2 a\<rfloor> - 1" "1 \<le> \<lfloor>- log 2 a\<rfloor>"
      by linarith+
    with False a show ?thesis by simp
  qed
qed

declare expo.simps [simp del]

definition rne :: "real \<Rightarrow> int" where
  "rne q =
     (let f = \<lfloor>q\<rfloor>; d = q - of_int f in
      if d < 1 / 2 then f else if 1 / 2 < d then f + 1 else if even f then f else f + 1)"

definition mag :: "real \<Rightarrow> real" where
  "mag a =
     (let e = max (expo a - 52) (- 1074) in of_int (rne (a / 2 powi e)) * 2 powi e)"

definition fl :: "real \<Rightarrow> jsnum" where
  "fl x =
     (if x = 0 then Fin 0
      else if 2 ^ 1024 \<le> mag \<bar>x\<bar> then (if 0 < x then PInf else NInf)
      else Fin (if 0 < x then mag \<bar>x\<bar> else - mag \<bar>x\<bar>))"

text \<open>
  The operators \<^verbatim>\<open>+\<close>, \<^verbatim>\<open>-\<close>, \<^verbatim>\<open>*\<close> and \<^verbatim>\<open>/\<close>:
  the exact result, rounded. A finite number divided by zero is taken for the zero
  \<open>+0\<close>.
\<close>

fun js_add :: "jsnum \<Rightarrow> jsnum \<Rightarrow> jsnum" where
  "js_add (Fin a) (Fin b) = fl (a + b)"
| "js_add NaN _ = NaN"
| "js_add _ NaN = NaN"
| "js_add PInf NInf = NaN"
| "js_add NInf PInf = NaN"
| "js_add PInf _ = PInf"
| "js_add _ PInf = PInf"
| "js_add NInf _ = NInf"
| "js_add _ NInf = NInf"

fun js_sub :: "jsnum \<Rightarrow> jsnum \<Rightarrow> jsnum" where
  "js_sub (Fin a) (Fin b) = fl (a - b)"
| "js_sub NaN _ = NaN"
| "js_sub _ NaN = NaN"
| "js_sub PInf PInf = NaN"
| "js_sub NInf NInf = NaN"
| "js_sub PInf _ = PInf"
| "js_sub _ PInf = NInf"
| "js_sub NInf _ = NInf"
| "js_sub _ NInf = PInf"

fun js_mul :: "jsnum \<Rightarrow> jsnum \<Rightarrow> jsnum" where
  "js_mul (Fin a) (Fin b) = fl (a * b)"
| "js_mul NaN _ = NaN"
| "js_mul _ NaN = NaN"
| "js_mul (Fin a) PInf = (if a = 0 then NaN else if 0 < a then PInf else NInf)"
| "js_mul (Fin a) NInf = (if a = 0 then NaN else if 0 < a then NInf else PInf)"
| "js_mul PInf (Fin b) = (if b = 0 then NaN else if 0 < b then PInf else NInf)"
| "js_mul NInf (Fin b) = (if b = 0 then NaN else if 0 < b then NInf else PInf)"
| "js_mul PInf PInf = PInf"
| "js_mul NInf NInf = PInf"
| "js_mul PInf NInf = NInf"
| "js_mul NInf PInf = NInf"

fun js_div :: "jsnum \<Rightarrow> jsnum \<Rightarrow> jsnum" where
  "js_div (Fin a) (Fin b) =
     (if b = 0 then (if a = 0 then NaN else if 0 < a then PInf else NInf) else fl (a / b))"
| "js_div NaN _ = NaN"
| "js_div _ NaN = NaN"
| "js_div (Fin a) PInf = Fin 0"
| "js_div (Fin a) NInf = Fin 0"
| "js_div PInf (Fin b) = (if 0 \<le> b then PInf else NInf)"
| "js_div NInf (Fin b) = (if 0 \<le> b then NInf else PInf)"
| "js_div _ _ = NaN"

text \<open>The comparisons \<^verbatim>\<open><\<close> and \<^verbatim>\<open><=\<close>: false when a side is \<open>NaN\<close>.\<close>

fun js_less :: "jsnum \<Rightarrow> jsnum \<Rightarrow> bool" where
  "js_less (Fin a) (Fin b) = (a < b)"
| "js_less (Fin a) PInf = True"
| "js_less NInf (Fin b) = True"
| "js_less NInf PInf = True"
| "js_less _ _ = False"

fun js_le :: "jsnum \<Rightarrow> jsnum \<Rightarrow> bool" where
  "js_le (Fin a) (Fin b) = (a \<le> b)"
| "js_le NaN _ = False"
| "js_le _ NaN = False"
| "js_le NInf _ = True"
| "js_le _ PInf = True"
| "js_le _ _ = False"

text \<open>
  \<^verbatim>\<open>row[c]\<close> on an existing row. A missing cell reads as
  \<^verbatim>\<open>undefined\<close>, which behaves exactly like \<open>NaN\<close> in the two operations
  the algorithms apply to a cell (\<^verbatim>\<open>+\<close> and \<^verbatim>\<open><\<close>) and differs
  from \<^verbatim>\<open>Infinity\<close> under \<^verbatim>\<open>!==\<close>, so it is read as \<open>NaN\<close>.
\<close>

definition cell :: "jsnum list \<Rightarrow> nat \<Rightarrow> jsnum" where
  "cell row c = (if c < length row then row ! c else NaN)"

text \<open>
  The only exception the modelled functions can throw: reading a cell of a row that
  does not exist (\<^verbatim>\<open>G[j][r]\<close> with \<^verbatim>\<open>G[j]\<close> undefined).
\<close>

datatype error = TypeError

section \<open>Multi-stage graph: \<^verbatim>\<open>backwardCost\<close>\<close>

record result =
  minimumCost :: jsnum
  path :: "int list"
  bcostArray :: "jsnum list"
  decisionArray :: "int list"

text \<open>
  One iteration of the inner loop over \<open>r\<close>, on the pair
  \<open>(minCost, nextVertex)\<close>; \<open>row\<close> is \<^verbatim>\<open>G[j]\<close>.
\<close>

fun scan_step :: "jsnum list \<Rightarrow> jsnum list \<Rightarrow> nat \<Rightarrow> jsnum \<times> int \<Rightarrow> jsnum \<times> int" where
  "scan_step row bcost r (minCost, nextVertex) =
     (let edgeCost = cell row r in
      if edgeCost \<noteq> PInf then
        (let total = js_add (bcost ! r) edgeCost in
         if js_less total minCost then (total, int r) else (minCost, nextVertex))
      else (minCost, nextVertex))"

text \<open>
  The body of the outer loop for one \<open>j\<close>. The outer loop only runs for
  \<open>j \<le> n - 2\<close>, so the inner loop reads \<^verbatim>\<open>G[j][j + 1]\<close> at least
  once, which throws when row \<open>j\<close> does not exist.
\<close>

definition stage_step ::
  "jsnum list list \<Rightarrow> nat \<Rightarrow> nat \<Rightarrow> jsnum list \<times> int list \<Rightarrow> error + jsnum list \<times> int list" where
  "stage_step G n j s =
     (case s of (bcost, d) \<Rightarrow>
        if j < length G then
          (case fold (scan_step (G ! j) bcost) [j + 1 ..< n] (PInf, - 1) of
             (minCost, nextVertex) \<Rightarrow> Inr (bcost[j := minCost], d[j := nextVertex]))
        else Inl TypeError)"

fun backward_pass ::
  "jsnum list list \<Rightarrow> nat \<Rightarrow> nat list \<Rightarrow> jsnum list \<times> int list \<Rightarrow> error + jsnum list \<times> int list" where
  "backward_pass G n [] s = Inr s"
| "backward_pass G n (j # js) s =
     (case stage_step G n j s of Inl e \<Rightarrow> Inl e | Inr s' \<Rightarrow> backward_pass G n js s')"

text \<open>
  The path reconstruction loop. It has no bound of its own, so not returning is the
  value \<open>None\<close>. When \<open>current\<close> is not an index of \<open>d\<close> (and is neither
  \<open>n - 1\<close> nor \<open>-1\<close>), \<^verbatim>\<open>d[current]\<close> is undefined, \<open>current\<close>
  becomes undefined and the loop condition stays true for ever. A write at
  \<open>index = length p\<close> extends the array.
\<close>

partial_function (option) follow ::
  "int list \<Rightarrow> nat \<Rightarrow> int \<Rightarrow> int list \<Rightarrow> nat \<Rightarrow> (int list \<times> nat) option" where
  "follow d n current p index =
     (if current = int n - 1 then Some (p, index)
      else if current = - 1 then Some (p, index)
      else if \<not> (0 \<le> current \<and> nat current < length d) then None
      else if d ! nat current = - 1 then Some (p, index)
      else follow d n (d ! nat current)
             (if index < length p then p[index := d ! nat current] else p @ [d ! nat current])
             (index + 1))"

declare follow.simps [code]

text \<open>
  \<^verbatim>\<open>bcost[n - 1] = 0\<close> with \<open>n = 0\<close> sets a property named \<^verbatim>\<open>-1\<close>
  and leaves the empty array empty, as the list update does.
\<close>

definition backwardCost :: "jsnum list list \<Rightarrow> nat \<Rightarrow> (error + result) option" where
  "backwardCost G n =
     (case backward_pass G n (rev [0 ..< n - 1]) ((replicate n PInf)[n - 1 := Fin 0], replicate n 0) of
        Inl e \<Rightarrow> Some (Inl e)
      | Inr (bcost, d) \<Rightarrow>
          (case follow d n 0 (replicate (n + 1) 0) 1 of
             None \<Rightarrow> None
           | Some (p, index) \<Rightarrow>
               Some (Inr \<lparr>minimumCost = bcost ! 0, path = take index p,
                          bcostArray = bcost, decisionArray = d\<rparr>)))"

section \<open>Travelling salesman: \<^verbatim>\<open>nearestNeighbor\<close>\<close>

text \<open>
  One iteration of the scan for the nearest unvisited city, on the pair
  \<open>(nearestCity, minDistance)\<close>; \<open>row\<close> is
  \<^verbatim>\<open>distances[currentCity]\<close>.
\<close>

fun nearest_step :: "bool list \<Rightarrow> jsnum list \<Rightarrow> nat \<Rightarrow> int \<times> jsnum \<Rightarrow> int \<times> jsnum" where
  "nearest_step visited row city (nearestCity, minDistance) =
     (if \<not> visited ! city \<and> js_less (cell row city) minDistance
      then (int city, cell row city) else (nearestCity, minDistance))"

text \<open>
  The body of the loop over \<open>step\<close>, on the tuple
  \<open>(visited, tour, totalDistance, currentCity)\<close>.
\<close>

fun visit_step ::
  "jsnum list list \<Rightarrow> bool list \<times> nat list \<times> jsnum \<times> nat \<Rightarrow> bool list \<times> nat list \<times> jsnum \<times> nat" where
  "visit_step distances (visited, tour, totalDistance, currentCity) =
     (case fold (nearest_step visited (distances ! currentCity)) [0 ..< length distances] (- 1, PInf) of
        (nearestCity, minDistance) \<Rightarrow>
          if nearestCity \<noteq> - 1
          then (visited[nat nearestCity := True], tour @ [nat nearestCity],
                js_add totalDistance minDistance, nat nearestCity)
          else (visited, tour, totalDistance, currentCity))"

record tsp_result =
  tour :: "nat list"
  totalDistance :: jsnum
  allVisited :: bool
  numCitiesVisited :: nat

text \<open>
  With \<open>startCity\<close> outside the matrix, \<^verbatim>\<open>distances[startCity]\<close> is
  undefined and the first read of one of its cells throws: in the scan when
  \<open>n \<ge> 2\<close>, at the return distance otherwise. With \<open>startCity\<close> inside,
  \<open>currentCity\<close> always names an existing row.
\<close>

definition nearestNeighbor :: "jsnum list list \<Rightarrow> nat \<Rightarrow> error + tsp_result" where
  "nearestNeighbor distances startCity =
     (let n = length distances in
      if \<not> startCity < n then Inl TypeError
      else
        (case (visit_step distances ^^ (n - 1))
                ((replicate n False)[startCity := True], [startCity], Fin 0, startCity) of
           (visited, t, td, currentCity) \<Rightarrow>
             Inr \<lparr>tour = t @ [startCity],
                  totalDistance = js_add td (cell (distances ! currentCity) startCity),
                  allVisited = list_all (\<lambda>v. v = True) visited,
                  numCitiesVisited = length (filter (\<lambda>v. v) visited)\<rparr>))"

section \<open>Fractional knapsack: \<^verbatim>\<open>sortBoxes\<close> and \<^verbatim>\<open>fractionalKnapsack\<close>\<close>

text \<open>
  A box as the caller passes it: \<open>index\<close> and \<open>name\<close> may be absent. The
  weight, the profit and the capacity are finite numbers.
\<close>

record box =
  box_index :: "nat option"
  box_weight :: real
  box_profit :: real
  box_name :: "string option"

text \<open>The records of the working copy \<^verbatim>\<open>temp\<close>.\<close>

record item =
  index :: nat
  weight :: real
  profit :: real
  name :: string
  ratio :: jsnum

text \<open>An entry of \<^verbatim>\<open>selectedBoxes\<close>: the item's fields and three more.\<close>

record selected = item +
  fraction :: jsnum
  takenWeight :: jsnum
  takenProfit :: jsnum

fun string_of_nat :: "nat \<Rightarrow> string" where
  "string_of_nat k =
     (if k < 10 then [char_of (48 + k)]
      else string_of_nat (k div 10) @ [char_of (48 + k mod 10)])"

text \<open>
  \<^verbatim>\<open>x.toFixed(2)\<close> is a string; the model keeps the number the string denotes.
  For a finite \<open>x\<close> that is the nearest multiple of 1/100, the larger one in magnitude
  on a tie. (From \<open>10 ^ 21\<close> on the string is that of \<open>x\<close> itself; a double that
  large is a whole number, which the rounding leaves as it is.) For an infinity or
  \<open>NaN\<close> the string names that value.
\<close>

definition toFixed2 :: "real \<Rightarrow> real" where
  "toFixed2 x =
     (if x < 0 then - (of_int \<lfloor>- x * 100 + 1 / 2\<rfloor> / 100) else of_int \<lfloor>x * 100 + 1 / 2\<rfloor> / 100)"

fun js_toFixed2 :: "jsnum \<Rightarrow> jsnum" where
  "js_toFixed2 (Fin x) = Fin (toFixed2 x)"
| "js_toFixed2 x = x"

text \<open>The callback of \<^verbatim>\<open>boxes.map\<close>: a new record for each box.\<close>

definition make_item :: "box \<Rightarrow> nat \<Rightarrow> item" where
  "make_item b i =
     \<lparr>index = (case box_index b of Some k \<Rightarrow> k | None \<Rightarrow> i),
      weight = box_weight b,
      profit = box_profit b,
      name = (case box_name b of
                Some s \<Rightarrow> if s = [] then ''Box '' @ string_of_nat i else s
              | None \<Rightarrow> ''Box '' @ string_of_nat i),
      ratio = (if box_weight b > 0 then js_div (Fin (box_profit b)) (Fin (box_weight b)) else Fin 0)\<rparr>"

text \<open>
  The test that sets \<^verbatim>\<open>swap\<close>, with \<open>x\<close> for \<^verbatim>\<open>boxes[i]\<close>
  and \<open>y\<close> for \<^verbatim>\<open>boxes[j]\<close>; any approach other than 1, 2 and 3 swaps
  nothing.
\<close>

definition swap_needed :: "nat \<Rightarrow> item \<Rightarrow> item \<Rightarrow> bool" where
  "swap_needed approach x y =
     (if approach = 1 \<and> weight x > weight y then True
      else if approach = 2 \<and> profit x < profit y then True
      else if approach = 3 \<and> js_less (ratio x) (ratio y) then True
      else False)"

text \<open>The body of the inner loop of \<^verbatim>\<open>sortBoxes\<close>, for one pair \<open>i < j\<close>.\<close>

definition sort_inner :: "nat \<Rightarrow> nat \<Rightarrow> nat \<Rightarrow> item list \<Rightarrow> item list" where
  "sort_inner approach i j boxes =
     (if swap_needed approach (boxes ! i) (boxes ! j)
      then boxes[i := boxes ! j, j := boxes ! i] else boxes)"

definition sortBoxes :: "item list \<Rightarrow> nat \<Rightarrow> item list" where
  "sortBoxes boxes approach =
     (let n = length boxes in
      fold (\<lambda>i bs. fold (sort_inner approach i) [i + 1 ..< n] bs) [0 ..< n - 1] boxes)"

text \<open>
  The selection loop from position \<open>i\<close> on, on the tuple
  \<open>(totalProfit, capacity, selectedBoxes)\<close>; it stops at the end of the list or
  when \<^verbatim>\<open>capacity > 0\<close> fails.
\<close>

fun fill :: "item list \<Rightarrow> jsnum \<times> jsnum \<times> selected list \<Rightarrow> jsnum \<times> jsnum \<times> selected list" where
  "fill [] s = s"
| "fill (b # bs) (totalProfit, capacity, selectedBoxes) =
     (if js_less (Fin 0) capacity then
        (if js_le (Fin (weight b)) capacity
         then fill bs (js_add totalProfit (Fin (profit b)), js_sub capacity (Fin (weight b)),
                selectedBoxes @
                  [item.extend b \<lparr>fraction = Fin 1, takenWeight = Fin (weight b),
                                   takenProfit = Fin (profit b)\<rparr>])
         else fill bs (js_add totalProfit (js_mul (Fin (profit b)) (js_div capacity (Fin (weight b)))),
                Fin 0,
                selectedBoxes @
                  [item.extend b \<lparr>fraction = js_div capacity (Fin (weight b)),
                                   takenWeight = capacity,
                                   takenProfit = js_mul (Fin (profit b)) (js_div capacity (Fin (weight b)))\<rparr>]))
      else (totalProfit, capacity, selectedBoxes))"

text \<open>
  The returned object. \<^verbatim>\<open>totalProfit\<close> is the string
  \<^verbatim>\<open>totalProfit.toFixed(2)\<close>, modelled by the number it denotes. The fields \<^verbatim>\<open>type\<close> (a constant) and
  \<^verbatim>\<open>efficiency\<close> are left out.
\<close>

record knapsack_result =
  totalProfit :: jsnum
  selectedBoxes :: "selected list"
  usedCapacity :: jsnum
  remainingCapacity :: jsnum
  capacity :: real
  approach :: nat
  approachName :: string

text \<open>
  The function never throws; its outcome is typed like those of the other two
  algorithms.
\<close>

definition fractionalKnapsack :: "box list \<Rightarrow> nat \<Rightarrow> real \<Rightarrow> error + knapsack_result" where
  "fractionalKnapsack boxes a truckCapacity =
     (let temp = sortBoxes (map (\<lambda>(b, i). make_item b i) (zip boxes [0 ..< length boxes])) a in
      case fill temp (Fin 0, Fin truckCapacity, []) of
        (tp, cap, sel) \<Rightarrow>
          Inr \<lparr>totalProfit = js_toFixed2 tp,
               selectedBoxes = sel,
               usedCapacity = js_sub (Fin truckCapacity) cap,
               remainingCapacity = cap,
               capacity = truckCapacity,
               approach = a,
               approachName = (if a = 1 then ''Weight-based''
                               else if a = 2 then ''Profit-based'' else ''Ratio-based'')\<rparr>)"

section \<open>The knapsack on an explicit store\<close>

text \<open>
  JavaScript arrays are passed by reference, and \<^verbatim>\<open>sortBoxes\<close> swaps the slots
  of the array it is given. To follow which array each statement writes, the same code
  is read once more over a store of arrays: an address is a position in the store and
  an allocation appends. No statement of the two functions assigns to a field of an
  existing object (the callback of \<^verbatim>\<open>map\<close> and the spread in
  \<^verbatim>\<open>push\<close> build new objects), so an array holds its records by value.
  \<open>None\<close> stands for a call outside this reading: an address that is not
  allocated, or an array of another shape than the function is applied to in the
  source.
\<close>

datatype jsarray = Boxes "box list" | Items "item list" | Selected "selected list"

type_synonym store = "jsarray list"

text \<open>
  \<^verbatim>\<open>sortBoxes(boxes, approach)\<close> with \<open>boxes\<close> the array at \<open>ad\<close>:
  every swap writes two slots of that array.
\<close>

definition sort_inner_at :: "nat \<Rightarrow> nat \<Rightarrow> nat \<Rightarrow> nat \<Rightarrow> store \<Rightarrow> store" where
  "sort_inner_at ad a i j h =
     (case h ! ad of
        Items boxes \<Rightarrow>
          if swap_needed a (boxes ! i) (boxes ! j)
          then h[ad := Items (boxes[i := boxes ! j, j := boxes ! i])] else h
      | _ \<Rightarrow> h)"

definition sortBoxes_at :: "store \<Rightarrow> nat \<Rightarrow> nat \<Rightarrow> store option" where
  "sortBoxes_at h ad a =
     (if ad < length h then
        (case h ! ad of
           Items boxes \<Rightarrow>
             (let n = length boxes in
              Some (fold (\<lambda>i h'. fold (sort_inner_at ad a i) [i + 1 ..< n] h') [0 ..< n - 1] h))
         | _ \<Rightarrow> None)
      else None)"

text \<open>
  \<^verbatim>\<open>fractionalKnapsack(boxes, approach, truckCapacity)\<close> with \<open>boxes\<close> the
  array at \<open>boxes_ad\<close>: \<^verbatim>\<open>boxes.map\<close> allocates \<open>temp\<close>,
  \<^verbatim>\<open>sortBoxes\<close> is applied to \<open>temp\<close>, the loop reads \<open>temp\<close> and fills
  the new array \<open>selectedBoxes\<close>.
\<close>

definition fractionalKnapsack_at ::
  "store \<Rightarrow> nat \<Rightarrow> nat \<Rightarrow> real \<Rightarrow> (store \<times> (error + knapsack_result)) option" where
  "fractionalKnapsack_at h boxes_ad a truckCapacity =
     (if boxes_ad < length h then
        (case h ! boxes_ad of
           Boxes boxes \<Rightarrow>
             (let temp_ad = length h;
                  h1 = h @ [Items (map (\<lambda>(b, i). make_item b i) (zip boxes [0 ..< length boxes]))]
              in case sortBoxes_at h1 temp_ad a of
                   None \<Rightarrow> None
                 | Some h2 \<Rightarrow>
                     (case h2 ! temp_ad of
                        Items temp \<Rightarrow>
                          (case fill temp (Fin 0, Fin truckCapacity, []) of
                             (tp, cap, sel) \<Rightarrow>
                               Some (h2 @ [Selected sel],
                                 Inr \<lparr>totalProfit = js_toFixed2 tp,
                                      selectedBoxes = sel,
                                      usedCapacity = js_sub (Fin truckCapacity) cap,
                                      remainingCapacity = cap,
                                      capacity = truckCapacity,
                                      approach = a,
                                      approachName = (if a = 1 then ''Weight-based''
                                                      else if a = 2 then ''Profit-based''
                                                      else ''Ratio-based'')\<rparr>))
                      | _ \<Rightarrow> None))
         | _ \<Rightarrow> None)
      else None)"

section \<open>Specification predicates\<close>

text \<open>
  A route is a list of vertices. \<open>ascending_route G t p\<close> holds when \<open>p\<close> ends
  at \<open>t\<close>, every step goes to a strictly higher vertex, and every step is an edge
  of \<open>G\<close> (its cost is not \<open>Infinity\<close>). \<open>route_cost\<close> is the cost of a
  route as the backward pass accumulates it: from the sink backwards, each edge added
  to the cost of the rest of the route, in the arithmetic of the code.
\<close>

fun ascending_route :: "jsnum list list \<Rightarrow> nat \<Rightarrow> nat list \<Rightarrow> bool" where
  "ascending_route G t [] = False"
| "ascending_route G t [u] = (u = t)"
| "ascending_route G t (u # v # vs) = (u < v \<and> G ! u ! v \<noteq> PInf \<and> ascending_route G t (v # vs))"

fun route_cost :: "jsnum list list \<Rightarrow> nat list \<Rightarrow> jsnum" where
  "route_cost G (u # v # vs) = js_add (route_cost G (v # vs)) (G ! u ! v)"
| "route_cost G vs = Fin 0"

text \<open>
  A matrix of the declared size: \<open>n\<close> rows of \<open>n\<close> cells. The entries of a cost
  matrix are finite numbers and \<open>Infinity\<close>, the sentinel for a missing edge.
\<close>

definition square :: "jsnum list list \<Rightarrow> nat \<Rightarrow> bool" where
  "square G n = (length G = n \<and> list_all (\<lambda>row. length row = n) G)"

fun is_cost :: "jsnum \<Rightarrow> bool" where
  "is_cost (Fin c) = True"
| "is_cost PInf = True"
| "is_cost _ = False"

definition cost_matrix :: "jsnum list list \<Rightarrow> nat \<Rightarrow> bool" where
  "cost_matrix G n = (square G n \<and> list_all (list_all is_cost) G)"

text \<open>
  \<open>cheapest G t j x\<close>: \<open>x\<close> is the least accumulated cost of an ascending route
  from \<open>j\<close> to \<open>t\<close>. It is a number, no route costs less, and it is the cost of
  some route unless it is \<open>Infinity\<close>.
\<close>

definition cheapest :: "jsnum list list \<Rightarrow> nat \<Rightarrow> nat \<Rightarrow> jsnum \<Rightarrow> bool" where
  "cheapest G t j x =
     (x \<noteq> NaN \<and>
      (x = PInf \<or> (\<exists>p. hd p = j \<and> ascending_route G t p \<and> route_cost G p = x)) \<and>
      (\<forall>p. hd p = j \<and> ascending_route G t p \<longrightarrow> js_le x (route_cost G p)))"

text \<open>
  The state of the backward pass once the vertices from \<open>k\<close> on are done: each
  decision is \<open>-1\<close> with the cost \<open>Infinity\<close>, or a higher vertex reached by an
  edge, with a cost below \<open>Infinity\<close> that is the cost of that vertex plus the edge.
\<close>

definition decisions_ok :: "jsnum list list \<Rightarrow> nat \<Rightarrow> nat \<Rightarrow> jsnum list \<Rightarrow> int list \<Rightarrow> bool" where
  "decisions_ok G n k bcost d =
     (length bcost = n \<and> length d = n \<and> bcost ! (n - 1) = Fin 0 \<and>
      (\<forall>j. k \<le> j \<and> j < n - 1 \<longrightarrow>
         (bcost ! j = PInf \<and> d ! j = - 1) \<or>
         (\<exists>r. j < r \<and> r < n \<and> d ! j = int r \<and> js_less (bcost ! j) PInf \<and>
              js_less (bcost ! r) PInf \<and> cell (G ! j) r \<noteq> PInf \<and>
              bcost ! j = js_add (bcost ! r) (cell (G ! j) r))))"

text \<open>
  The decisions form chains that the reconstruction loop follows. \<open>chain_edges\<close>
  and \<open>chain_cost\<close> read a chain of decisions as a route: every step is an edge,
  and the costs of the steps are added from the end of the chain backwards.
\<close>

fun chain_cost :: "jsnum list list \<Rightarrow> int list \<Rightarrow> jsnum" where
  "chain_cost G (u # v # vs) = js_add (chain_cost G (v # vs)) (cell (G ! nat u) (nat v))"
| "chain_cost G vs = Fin 0"

fun chain_edges :: "jsnum list list \<Rightarrow> int list \<Rightarrow> bool" where
  "chain_edges G (u # v # vs) = (cell (G ! nat u) (nat v) \<noteq> PInf \<and> chain_edges G (v # vs))"
| "chain_edges G vs = True"

text \<open>
  A matrix of finite distances, and the state of the nearest-neighbour loop: the tour
  starts at \<open>start\<close>, ends at the current city, repeats no city, and holds exactly
  the cities marked visited. \<open>legs D t\<close> lists the distances of the consecutive
  pairs of \<open>t\<close>.
\<close>

definition finite_matrix :: "jsnum list list \<Rightarrow> bool" where
  "finite_matrix D =
     (square D (length D) \<and> list_all (list_all (\<lambda>x. case x of Fin r \<Rightarrow> True | _ \<Rightarrow> False)) D)"

definition tour_state :: "nat \<Rightarrow> nat \<Rightarrow> bool list \<times> nat list \<times> jsnum \<times> nat \<Rightarrow> bool" where
  "tour_state n start s =
     (case s of (visited, t, td, currentCity) \<Rightarrow>
        length visited = n \<and> currentCity < n \<and> t \<noteq> [] \<and> hd t = start \<and> last t = currentCity \<and>
        distinct t \<and> (\<forall>c < n. visited ! c \<longleftrightarrow> c \<in> set t) \<and> (\<forall>c \<in> set t. c < n))"

definition legs :: "jsnum list list \<Rightarrow> nat list \<Rightarrow> jsnum list" where
  "legs D t = map (\<lambda>(u, v). D ! u ! v) (zip t (tl t))"

text \<open>
  The working copy of the knapsack after sorting, and the selection loop in exact
  arithmetic on the pair \<open>(totalProfit, capacity)\<close>. \<open>exact_updates\<close> holds when
  no update \<^verbatim>\<open>capacity -= w\<close> of the loop rounds, and \<open>exact_fill\<close> when no
  operation of the loop rounds at all; both follow the loop as the code runs it.
\<close>

definition working_copy :: "box list \<Rightarrow> nat \<Rightarrow> item list" where
  "working_copy boxes a = sortBoxes (map (\<lambda>(b, i). make_item b i) (zip boxes [0 ..< length boxes])) a"

fun ideal_fill :: "item list \<Rightarrow> real \<times> real \<Rightarrow> real \<times> real" where
  "ideal_fill [] s = s"
| "ideal_fill (b # bs) (tp, cap) =
     (if 0 < cap then
        (if weight b \<le> cap then ideal_fill bs (tp + profit b, cap - weight b)
         else ideal_fill bs (tp + profit b * (cap / weight b), 0))
      else (tp, cap))"

fun exact_updates :: "item list \<Rightarrow> real \<Rightarrow> bool" where
  "exact_updates [] cap = True"
| "exact_updates (b # bs) cap =
     (if 0 < cap \<and> weight b \<le> cap
      then fl (cap - weight b) = Fin (cap - weight b) \<and> exact_updates bs (cap - weight b)
      else True)"

fun exact_fill :: "item list \<Rightarrow> real \<times> real \<Rightarrow> bool" where
  "exact_fill [] s = True"
| "exact_fill (b # bs) (tp, cap) =
     (if 0 < cap then
        (if weight b \<le> cap
         then fl (tp + profit b) = Fin (tp + profit b) \<and>
              fl (cap - weight b) = Fin (cap - weight b) \<and>
              exact_fill bs (tp + profit b, cap - weight b)
         else fl (cap / weight b) = Fin (cap / weight b) \<and>
              fl (profit b * (cap / weight b)) = Fin (profit b * (cap / weight b)) \<and>
              fl (tp + profit b * (cap / weight b)) = Fin (tp + profit b * (cap / weight b)))
      else True)"

section \<open>Properties of the rounding\<close>

lemma pow2_plus1: "(2::real) powi (k + 1) = 2 powi k * 2"
  by (simp add: power_int_add)

lemma pow2_minus1: "(2::real) powi (k - 1) = 2 powi k / 2"
  by (simp add: power_int_diff)

lemma expo_bounds: "0 < a \<Longrightarrow> 2 powi expo a \<le> a \<and> a < 2 powi (expo a + 1)"
proof (induction a rule: expo.induct)
  case (1 a)
  show ?case
  proof (cases "2 \<le> a")
    case True
    then have e: "expo a = expo (a / 2) + 1" by (subst expo.simps) simp
    from True "1.IH"(1) have "2 powi expo (a / 2) \<le> a / 2 \<and> a / 2 < 2 powi (expo (a / 2) + 1)"
      by simp
    then have "2 powi expo (a / 2) * 2 \<le> a \<and> a < 2 powi (expo (a / 2) + 1) * 2"
      by linarith
    then show ?thesis
      unfolding e pow2_plus1 .
  next
    case False
    show ?thesis
    proof (cases "a < 1")
      case True
      with False "1.prems" have e: "expo a = expo (a * 2) - 1" by (subst expo.simps) simp
      from True False "1.prems" "1.IH"(2) have "2 powi expo (a * 2) \<le> a * 2 \<and> a * 2 < 2 powi (expo (a * 2) + 1)"
        by simp
      then have "2 powi expo (a * 2) / 2 \<le> a \<and> a < 2 powi (expo (a * 2) - 1) * 2"
        unfolding pow2_plus1 pow2_minus1 by linarith
      then show ?thesis
        unfolding e pow2_plus1 pow2_minus1 by simp
    next
      case one: False
      with False have "expo a = 0" by (subst expo.simps) simp
      with False one show ?thesis by simp
    qed
  qed
qed

lemma expo_unique:
  assumes "2 powi k \<le> a" and "a < 2 powi (k + 1)"
  shows "expo a = k"
proof -
  have pos: "0 < a"
    using assms(1) by (rule less_le_trans[rotated]) simp
  note b = expo_bounds[OF pos]
  have "k < expo a + 1"
  proof (rule ccontr)
    assume "\<not> k < expo a + 1"
    then have "(2::real) powi (expo a + 1) \<le> 2 powi k"
      by (intro power_int_increasing) simp_all
    with b assms(1) show False by linarith
  qed
  moreover have "expo a < k + 1"
  proof (rule ccontr)
    assume "\<not> expo a < k + 1"
    then have "(2::real) powi (k + 1) \<le> 2 powi expo a"
      by (intro power_int_increasing) simp_all
    with b assms(2) show False by linarith
  qed
  ultimately show ?thesis by simp
qed

lemma expo_mono:
  assumes "0 < a" and "a \<le> b"
  shows "expo a \<le> expo b"
proof (rule ccontr)
  assume "\<not> expo a \<le> expo b"
  then have "(2::real) powi (expo b + 1) \<le> 2 powi expo a"
    by (intro power_int_increasing) simp_all
  moreover from assms have "0 < b" by simp
  ultimately show False
    using expo_bounds[OF assms(1)] expo_bounds[OF \<open>0 < b\<close>] assms(2) by linarith
qed

lemma rne_of_int [simp]: "rne (of_int n) = n"
  by (simp add: rne_def)

lemma rne_bounds: "of_int (rne q) - 1 / 2 \<le> q \<and> q \<le> of_int (rne q) + 1 / 2"
proof -
  have "of_int \<lfloor>q\<rfloor> \<le> q" "q < of_int \<lfloor>q\<rfloor> + 1" by linarith+
  then show ?thesis
    unfolding rne_def Let_def by (simp split: if_splits) linarith
qed

lemma rne_mono:
  assumes "q \<le> r"
  shows "rne q \<le> rne r"
proof (cases "\<lfloor>q\<rfloor> = \<lfloor>r\<rfloor>")
  case True
  with assms show ?thesis
    unfolding rne_def Let_def by auto
next
  case False
  with assms have lt: "\<lfloor>q\<rfloor> + 1 \<le> \<lfloor>r\<rfloor>"
    using floor_mono[OF assms] by linarith
  have "rne q \<le> \<lfloor>q\<rfloor> + 1"
    unfolding rne_def Let_def by auto
  moreover have "\<lfloor>r\<rfloor> \<le> rne r"
    unfolding rne_def Let_def by auto
  ultimately show ?thesis using lt by linarith
qed

lemma rne_le_int: "q \<le> of_int n \<Longrightarrow> rne q \<le> n"
  using rne_mono[of q "of_int n"] by simp

lemma rne_ge_int: "of_int n \<le> q \<Longrightarrow> n \<le> rne q"
  using rne_mono[of "of_int n" q] by simp

lemma mag_at:
  assumes "2 powi k \<le> a" and "a < 2 powi (k + 1)"
  shows "mag a = of_int (rne (a / 2 powi max (k - 52) (- 1074))) * 2 powi max (k - 52) (- 1074)"
  by (simp add: mag_def Let_def expo_unique[OF assms])

lemma mag_nonneg:
  assumes "0 < a"
  shows "0 \<le> mag a"
proof -
  have "0 \<le> a / 2 powi max (expo a - 52) (- 1074)"
    using assms by simp
  then have "0 \<le> rne (a / 2 powi max (expo a - 52) (- 1074))"
    using rne_ge_int[of 0] by simp
  then show ?thesis
    by (simp add: mag_def Let_def)
qed

lemma pow2_nat: "0 \<le> n \<Longrightarrow> (2::real) powi n = of_int (2 ^ nat n)"
  by (simp add: power_int_def)

text \<open>Below \<open>2 powi k\<close> the rounded magnitude stays at most \<open>2 powi k\<close>, from there on at least.\<close>

lemma mag_le_pow2:
  assumes a: "0 < a" and lt: "a \<le> 2 powi k" and k: "max (expo a - 52) (- 1074) \<le> k"
  shows "mag a \<le> 2 powi k"
proof -
  define e where "e = max (expo a - 52) (- 1074)"
  from k have ke: "0 \<le> k - e" by (simp add: e_def)
  have "a / 2 powi e \<le> 2 powi k / 2 powi e"
    using lt by (simp add: divide_right_mono)
  also have "\<dots> = 2 powi (k - e)"
    by (simp add: power_int_diff)
  also have "\<dots> = of_int (2 ^ nat (k - e))"
    using ke by (rule pow2_nat)
  finally have "rne (a / 2 powi e) \<le> 2 ^ nat (k - e)"
    by (rule rne_le_int)
  then have "(of_int (rne (a / 2 powi e)) :: real) \<le> of_int (2 ^ nat (k - e))"
    by (simp only: of_int_le_iff)
  also have "\<dots> = 2 powi (k - e)"
    using ke by (rule pow2_nat [symmetric])
  finally have "of_int (rne (a / 2 powi e)) * (2::real) powi e \<le> 2 powi (k - e) * 2 powi e"
    by (intro mult_right_mono) simp_all
  also have "\<dots> = 2 powi k"
    by (simp flip: power_int_add)
  finally show ?thesis
    by (simp add: mag_def Let_def e_def)
qed

lemma mag_ge_pow2:
  assumes ge: "2 powi k \<le> a" and k: "max (expo a - 52) (- 1074) \<le> k"
  shows "2 powi k \<le> mag a"
proof -
  define e where "e = max (expo a - 52) (- 1074)"
  from k have ke: "0 \<le> k - e" by (simp add: e_def)
  have "of_int (2 ^ nat (k - e)) = (2::real) powi (k - e)"
    using ke by (rule pow2_nat [symmetric])
  also have "\<dots> = 2 powi k / 2 powi e"
    by (simp add: power_int_diff)
  also have "\<dots> \<le> a / 2 powi e"
    using ge by (simp add: divide_right_mono)
  finally have "2 ^ nat (k - e) \<le> rne (a / 2 powi e)"
    by (rule rne_ge_int)
  then have "(of_int (2 ^ nat (k - e)) :: real) \<le> of_int (rne (a / 2 powi e))"
    by (simp only: of_int_le_iff)
  then have "2 powi (k - e) \<le> (of_int (rne (a / 2 powi e)) :: real)"
    using pow2_nat[OF ke] by simp
  then have "2 powi (k - e) * (2::real) powi e \<le> of_int (rne (a / 2 powi e)) * 2 powi e"
    by (intro mult_right_mono) simp_all
  moreover have "2 powi (k - e) * 2 powi e = (2::real) powi k"
    by (simp flip: power_int_add)
  ultimately have "2 powi k \<le> of_int (rne (a / 2 powi e)) * (2::real) powi e"
    by simp
  then show ?thesis
    by (simp only: mag_def Let_def e_def)
qed

lemma mag_mono:
  assumes a: "0 < a" and ab: "a \<le> b"
  shows "mag a \<le> mag b"
proof -
  from a ab have b: "0 < b" by simp
  define ea where "ea = max (expo a - 52) (- 1074)"
  define eb where "eb = max (expo b - 52) (- 1074)"
  from expo_mono[OF a ab] have le: "ea \<le> eb"
    by (simp add: ea_def eb_def)
  show ?thesis
  proof (cases "ea = eb")
    case True
    have "rne (a / 2 powi ea) \<le> rne (b / 2 powi ea)"
      using ab by (intro rne_mono divide_right_mono) simp_all
    then have "of_int (rne (a / 2 powi ea)) * (2::real) powi ea \<le> of_int (rne (b / 2 powi ea)) * 2 powi ea"
      by (intro mult_right_mono) simp_all
    then show ?thesis
      using True by (simp add: mag_def Let_def ea_def [symmetric] eb_def [symmetric])
  next
    case False
    with le have lt: "ea < eb" by simp
    then have eb: "eb = expo b - 52" and "expo a < expo b"
      by (auto simp: ea_def eb_def)
    then have "expo a + 1 \<le> expo b" by simp
    then have "(2::real) powi (expo a + 1) \<le> 2 powi expo b"
      by (intro power_int_increasing) simp_all
    with expo_bounds[OF a] have "a \<le> 2 powi expo b" by linarith
    moreover from lt eb have "ea \<le> expo b" by simp
    ultimately have "mag a \<le> 2 powi expo b"
      using a by (intro mag_le_pow2) (simp_all add: ea_def)
    moreover from lt eb have "max (expo b - 52) (- 1074) \<le> expo b"
      by (simp add: ea_def)
    with expo_bounds[OF b] have "2 powi expo b \<le> mag b"
      by (intro mag_ge_pow2) simp_all
    ultimately show ?thesis by simp
  qed
qed

lemma fl_pos: "0 < x \<Longrightarrow> fl x = (if 2 ^ 1024 \<le> mag x then PInf else Fin (mag x))"
  by (simp add: fl_def)

lemma fl_neg: "x < 0 \<Longrightarrow> fl x = (if 2 ^ 1024 \<le> mag (- x) then NInf else Fin (- mag (- x)))"
  by (simp add: fl_def)

lemma fl_not_NaN [simp]: "fl x \<noteq> NaN"
  by (simp add: fl_def)

lemma fl_mono:
  assumes "x \<le> y"
  shows "js_le (fl x) (fl y)"
proof -
  consider "0 < x" | "y < 0" | "x \<le> 0" "0 \<le> y"
    using assms by linarith
  then show ?thesis
  proof cases
    case 1
    with assms have y: "0 < y" by simp
    from mag_mono[OF 1 assms] show ?thesis
      by (simp add: fl_pos 1 y)
  next
    case 2
    with assms have x: "x < 0" by simp
    from 2 assms have "0 < - y" "- y \<le> - x" by simp_all
    from mag_mono[OF this] show ?thesis
      by (simp add: fl_neg 2 x)
  next
    case 3
    have "js_le (fl x) (Fin 0)"
    proof (cases "x = 0")
      case True
      then show ?thesis by (simp add: fl_def)
    next
      case False
      with 3 have "x < 0" by simp
      with mag_nonneg[of "- x"] show ?thesis by (simp add: fl_neg)
    qed
    moreover have "js_le (Fin 0) (fl y)"
    proof (cases "y = 0")
      case True
      then show ?thesis by (simp add: fl_def)
    next
      case False
      with 3 have "0 < y" by simp
      with mag_nonneg[of y] show ?thesis by (simp add: fl_pos)
    qed
    ultimately show ?thesis
      by (cases "fl x"; cases "fl y") auto
  qed
qed

lemma fl_at:
  assumes "2 powi k \<le> x" and "x < 2 powi (k + 1)"
  shows "fl x =
           (if 2 ^ 1024 \<le> of_int (rne (x / 2 powi max (k - 52) (- 1074))) * (2::real) powi max (k - 52) (- 1074)
            then PInf
            else Fin (of_int (rne (x / 2 powi max (k - 52) (- 1074))) * 2 powi max (k - 52) (- 1074)))"
proof -
  have "0 < x"
    using assms(1) by (rule less_le_trans[rotated]) simp
  then show ?thesis
    by (simp add: fl_pos mag_at[OF assms])
qed

lemma mag_dyadic:
  assumes m: "0 < m" "m < 2 ^ 53" and e: "- 1074 \<le> e"
  shows "mag (of_int m * 2 powi e) = of_int m * 2 powi e"
proof -
  define a :: real where "a = of_int m * 2 powi e"
  define e' where "e' = max (expo a - 52) (- 1074)"
  have pos: "0 < a" using m(1) by (simp add: a_def)
  have "a < 2 powi (53 + e)"
  proof -
    from m(2) have "(of_int m :: real) < of_int (2 ^ 53)" by (simp only: of_int_less_iff)
    then have "of_int m * (2::real) powi e < 2 ^ 53 * 2 powi e"
      by (intro mult_strict_right_mono) simp_all
    also have "\<dots> = 2 powi (53 + e)"
      by (simp add: power_int_add)
    finally show ?thesis by (simp add: a_def)
  qed
  with expo_bounds[OF pos] have "(2::real) powi expo a < 2 powi (53 + e)" by linarith
  then have "expo a < 53 + e"
    by (metis linorder_not_le one_le_numeral power_int_increasing)
  with e have le: "e' \<le> e" by (simp add: e'_def)
  have "a / 2 powi e' = of_int m * 2 powi (e - e')"
    by (simp add: a_def power_int_diff)
  also have "\<dots> = of_int (m * 2 ^ nat (e - e'))"
    using le by (simp add: pow2_nat)
  finally have "rne (a / 2 powi e') = m * 2 ^ nat (e - e')"
    by (simp only: rne_of_int)
  then have "of_int (rne (a / 2 powi e')) * (2::real) powi e' = of_int m * 2 powi (e - e') * 2 powi e'"
    using le by (simp add: pow2_nat)
  also have "\<dots> = a"
    by (simp add: a_def power_int_diff)
  finally show ?thesis
    by (simp add: mag_def Let_def e'_def a_def)
qed

lemma fl_dyadic:
  assumes m: "\<bar>m\<bar> < 2 ^ 53" and e: "- 1074 \<le> e" "e \<le> 971"
  shows "fl (of_int m * 2 powi e) = Fin (of_int m * 2 powi e)"
proof -
  have small: "of_int n * 2 powi e < (2::real) ^ 1024" if "0 < n" "n < 2 ^ 53" for n :: int
  proof -
    from that(2) have "(of_int n :: real) < of_int (2 ^ 53)" by (simp only: of_int_less_iff)
    then have "of_int n * (2::real) powi e < 2 ^ 53 * 2 powi e"
      by (intro mult_strict_right_mono) simp_all
    also have "\<dots> = 2 powi (53 + e)"
      by (simp add: power_int_add)
    also have "\<dots> \<le> 2 powi 1024"
      using e by (intro power_int_increasing) simp_all
    finally show ?thesis by simp
  qed
  consider "m = 0" | "0 < m" | "m < 0" by linarith
  then show ?thesis
  proof cases
    case 1
    then show ?thesis by (simp add: fl_def)
  next
    case 2
    with m have "m < 2 ^ 53" by simp
    from mag_dyadic[OF 2 this e(1)] small[OF 2 this] 2 show ?thesis
      by (simp add: fl_pos)
  next
    case 3
    with m have n: "0 < - m" "- m < 2 ^ 53" by simp_all
    from 3 have neg: "of_int m * (2::real) powi e < 0"
      by (simp add: mult_neg_pos)
    from mag_dyadic[OF n e(1)] small[OF n] show ?thesis
      by (simp add: fl_neg[OF neg])
  qed
qed

lemma fl_int: "x \<in> \<int> \<Longrightarrow> \<bar>x\<bar> < 2 ^ 53 \<Longrightarrow> fl x = Fin x"
proof -
  assume "x \<in> \<int>" and b: "\<bar>x\<bar> < 2 ^ 53"
  then obtain m where x: "x = of_int m" by (auto elim: Ints_cases)
  with b have "\<bar>m\<bar> < 2 ^ 53"
    by (metis of_int_abs of_int_less_iff of_int_numeral of_int_power)
  from fl_dyadic[OF this, of 0] x show ?thesis by simp
qed

section \<open>Properties of the multi-stage graph\<close>

subsection \<open>The scan for the cheapest successor\<close>

lemma js_less_iff:
  "js_less x y \<longleftrightarrow>
     (x = NInf \<and> (y = PInf \<or> (\<exists>b. y = Fin b))) \<or>
     (\<exists>a. x = Fin a \<and> (y = PInf \<or> (\<exists>b. y = Fin b \<and> a < b)))"
  by (cases x; cases y) auto

lemma js_less_PInf: "js_less x PInf \<longleftrightarrow> x = NInf \<or> (\<exists>a. x = Fin a)"
  by (cases x) auto

lemma js_less_trans: "js_less x y \<Longrightarrow> js_less y z \<Longrightarrow> js_less x z"
  by (cases x; cases y; cases z) auto

lemma js_less_le_trans: "js_less x y \<Longrightarrow> \<not> js_less z y \<Longrightarrow> z \<noteq> NaN \<Longrightarrow> js_less x z"
  by (cases x; cases y; cases z) auto

lemma not_js_less: "x \<noteq> NaN \<Longrightarrow> y \<noteq> NaN \<Longrightarrow> \<not> js_less y x \<longleftrightarrow> js_le x y"
  by (cases x; cases y) auto

lemma js_le_refl: "x \<noteq> NaN \<Longrightarrow> js_le x x"
  by (cases x) auto

lemma js_le_trans: "js_le x y \<Longrightarrow> js_le y z \<Longrightarrow> js_le x z"
  by (cases x; cases y; cases z) auto

lemma js_le_PInf: "js_le PInf x \<longleftrightarrow> x = PInf"
  by (cases x) auto

lemma js_add_PInf: "js_add x PInf = PInf \<or> js_add x PInf = NaN"
  by (cases x) auto

lemma js_add_proper:
  "js_less (js_add x y) PInf \<Longrightarrow> js_less x PInf \<and> js_less y PInf"
  by (cases x; cases y) auto

lemma js_add_Fin_not_NaN: "x \<noteq> NaN \<Longrightarrow> js_add x (Fin e) \<noteq> NaN"
  by (cases x) auto

lemma js_add_mono: "js_le x y \<Longrightarrow> js_le (js_add x (Fin e)) (js_add y (Fin e))"
proof (cases x; cases y)
  fix a b assume "js_le x y" "x = Fin a" "y = Fin b"
  then show ?thesis using fl_mono[of "a + e" "b + e"] by simp
next
  fix a assume a: "js_le x y" "x = NInf" "y = Fin a"
  have "fl (a + e) \<noteq> NaN" by simp
  with a show ?thesis by (cases "fl (a + e)") auto
next
  fix a assume a: "js_le x y" "x = Fin a" "y = PInf"
  have "fl (a + e) \<noteq> NaN" by simp
  with a show ?thesis by (cases "fl (a + e)") auto
qed auto

lemma scan_step_alt:
  "scan_step row bcost r (m, v) =
     (if js_less (js_add (bcost ! r) (cell row r)) m then (js_add (bcost ! r) (cell row r), int r) else (m, v))"
proof (cases "cell row r = PInf")
  case True
  with js_add_PInf[of "bcost ! r"] show ?thesis
    by (auto simp: Let_def)
next
  case False
  then show ?thesis by (simp add: Let_def)
qed

lemma scan_result:
  "fold (scan_step row bcost) rs (PInf, - 1) = (m, v) \<Longrightarrow>
     (m = PInf \<and> v = - 1 \<and> (\<forall>r \<in> set rs. \<not> js_less (js_add (bcost ! r) (cell row r)) PInf)) \<or>
     (\<exists>r \<in> set rs. v = int r \<and> m = js_add (bcost ! r) (cell row r) \<and> js_less m PInf \<and>
        (\<forall>r' \<in> set rs. \<not> js_less (js_add (bcost ! r') (cell row r')) m))"
proof (induction rs arbitrary: m v rule: rev_induct)
  case Nil
  then show ?case by simp
next
  case (snoc r rs)
  obtain m0 v0 where s0: "fold (scan_step row bcost) rs (PInf, - 1) = (m0, v0)"
    by (cases "fold (scan_step row bcost) rs (PInf, - 1)") auto
  from snoc.prems s0 have step: "scan_step row bcost r (m0, v0) = (m, v)"
    by simp
  note ih = snoc.IH[OF s0]
  define t where "t = js_add (bcost ! r) (cell row r)"
  show ?case
  proof (cases "js_less t m0")
    case True
    with step have mv: "m = t" "v = int r"
      by (simp_all add: scan_step_alt t_def del: scan_step.simps)
    from True have proper: "js_less t PInf"
      by (auto simp: js_less_iff)
    have self: "\<not> js_less t t"
      by (cases t) auto
    have "\<not> js_less (js_add (bcost ! r') (cell row r')) t" if "r' \<in> set rs" for r'
    proof
      assume "js_less (js_add (bcost ! r') (cell row r')) t"
      from js_less_trans[OF this True] ih that show False
        by (auto simp: js_less_iff)
    qed
    with self have "\<forall>r' \<in> set (rs @ [r]). \<not> js_less (js_add (bcost ! r') (cell row r')) t"
      by (auto simp: t_def)
    with mv proper show ?thesis
      by (auto simp: t_def)
  next
    case False
    with step have mv: "m = m0" "v = v0"
      by (simp_all add: scan_step_alt t_def del: scan_step.simps)
    from ih show ?thesis
    proof
      assume a: "m0 = PInf \<and> v0 = - 1 \<and> (\<forall>r \<in> set rs. \<not> js_less (js_add (bcost ! r) (cell row r)) PInf)"
      with False mv show ?thesis by (auto simp: t_def)
    next
      assume "\<exists>q \<in> set rs. v0 = int q \<and> m0 = js_add (bcost ! q) (cell row q) \<and> js_less m0 PInf \<and>
        (\<forall>r' \<in> set rs. \<not> js_less (js_add (bcost ! r') (cell row r')) m0)"
      then obtain q where q: "q \<in> set rs" "v0 = int q" "m0 = js_add (bcost ! q) (cell row q)" "js_less m0 PInf"
        "\<forall>r' \<in> set rs. \<not> js_less (js_add (bcost ! r') (cell row r')) m0"
        by blast
      from q(5) False have "\<forall>r' \<in> set (rs @ [r]). \<not> js_less (js_add (bcost ! r') (cell row r')) m0"
        by (auto simp: t_def)
      with q(1-4) mv show ?thesis
        by (intro disjI2 bexI[of _ q]) simp_all
    qed
  qed
qed

subsection \<open>The backward pass and the reconstruction of the path\<close>

lemma backward_pass_invariant:
  assumes step: "\<And>j s. Inv (Suc j) s \<Longrightarrow> j < n - 1 \<Longrightarrow> \<exists>s'. stage_step G n j s = Inr s' \<and> Inv j s'"
  shows "Inv m s \<Longrightarrow> m \<le> n - 1 \<Longrightarrow> \<exists>s'. backward_pass G n (rev [0 ..< m]) s = Inr s' \<and> Inv 0 s'"
proof (induction m arbitrary: s)
  case 0
  then show ?case by simp
next
  case (Suc m)
  from Suc.prems have "m < n - 1" by simp
  from step[OF Suc.prems(1) this] obtain s' where s': "stage_step G n m s = Inr s'" "Inv m s'"
    by blast
  from Suc.IH[OF s'(2)] Suc.prems(2) s'(1) show ?case
    by simp
qed

lemma stage_step_decisions:
  assumes inv: "decisions_ok G n (Suc j) bcost d" and j: "j < n - 1" and row: "j < length G"
  shows "\<exists>bcost' d'. stage_step G n j (bcost, d) = Inr (bcost', d') \<and> decisions_ok G n j bcost' d'"
proof -
  obtain m v where mv: "fold (scan_step (G ! j) bcost) [j + 1 ..< n] (PInf, - 1) = (m, v)"
    by (cases "fold (scan_step (G ! j) bcost) [j + 1 ..< n] (PInf, - 1)") auto
  from inv have len: "length bcost = n" "length d = n" and sink: "bcost ! (n - 1) = Fin 0"
    and old: "\<And>i. Suc j \<le> i \<Longrightarrow> i < n - 1 \<Longrightarrow>
       (bcost ! i = PInf \<and> d ! i = - 1) \<or>
       (\<exists>r. i < r \<and> r < n \<and> d ! i = int r \<and> js_less (bcost ! i) PInf \<and>
            js_less (bcost ! r) PInf \<and> cell (G ! i) r \<noteq> PInf \<and>
            bcost ! i = js_add (bcost ! r) (cell (G ! i) r))"
    by (auto simp: decisions_ok_def)
  have here: "(m = PInf \<and> v = - 1) \<or>
      (\<exists>r. j < r \<and> r < n \<and> v = int r \<and> js_less m PInf \<and> js_less (bcost ! r) PInf \<and>
           cell (G ! j) r \<noteq> PInf \<and> m = js_add (bcost ! r) (cell (G ! j) r))"
    using scan_result[OF mv]
  proof
    assume "m = PInf \<and> v = - 1 \<and> (\<forall>r \<in> set [j + 1 ..< n]. \<not> js_less (js_add (bcost ! r) (cell (G ! j) r)) PInf)"
    then show ?thesis by simp
  next
    assume "\<exists>r \<in> set [j + 1 ..< n]. v = int r \<and> m = js_add (bcost ! r) (cell (G ! j) r) \<and> js_less m PInf \<and>
        (\<forall>r' \<in> set [j + 1 ..< n]. \<not> js_less (js_add (bcost ! r') (cell (G ! j) r')) m)"
    then obtain r where r: "j < r" "r < n" "v = int r" "m = js_add (bcost ! r) (cell (G ! j) r)" "js_less m PInf"
      by auto
    from js_add_proper[of "bcost ! r" "cell (G ! j) r"] r(4,5)
    have "js_less (bcost ! r) PInf" "js_less (cell (G ! j) r) PInf" by simp_all
    moreover from this(2) have "cell (G ! j) r \<noteq> PInf" by auto
    ultimately show ?thesis using r by blast
  qed
  have "decisions_ok G n j (bcost[j := m]) (d[j := v])"
    unfolding decisions_ok_def
  proof (intro conjI allI impI)
    show "length (bcost[j := m]) = n" "length (d[j := v]) = n"
      using len by simp_all
    show "bcost[j := m] ! (n - 1) = Fin 0"
      using sink j by simp
  next
    fix i assume i: "j \<le> i \<and> i < n - 1"
    show "(bcost[j := m] ! i = PInf \<and> d[j := v] ! i = - 1) \<or>
       (\<exists>r. i < r \<and> r < n \<and> d[j := v] ! i = int r \<and> js_less (bcost[j := m] ! i) PInf \<and>
            js_less (bcost[j := m] ! r) PInf \<and> cell (G ! i) r \<noteq> PInf \<and>
            bcost[j := m] ! i = js_add (bcost[j := m] ! r) (cell (G ! i) r))"
    proof (cases "i = j")
      case True
      from here show ?thesis
      proof
        assume "m = PInf \<and> v = - 1"
        with True len j show ?thesis by simp
      next
        assume "\<exists>r. j < r \<and> r < n \<and> v = int r \<and> js_less m PInf \<and> js_less (bcost ! r) PInf \<and>
           cell (G ! j) r \<noteq> PInf \<and> m = js_add (bcost ! r) (cell (G ! j) r)"
        then obtain r where r: "j < r" "r < n" "v = int r" "js_less m PInf" "js_less (bcost ! r) PInf"
           "cell (G ! j) r \<noteq> PInf" "m = js_add (bcost ! r) (cell (G ! j) r)"
          by blast
        with True len j show ?thesis
          by (intro disjI2 exI[of _ r]) simp
      qed
    next
      case False
      with i have "Suc j \<le> i" "i < n - 1" by simp_all
      from old[OF this] show ?thesis
      proof
        assume "bcost ! i = PInf \<and> d ! i = - 1"
        with False show ?thesis by simp
      next
        assume "\<exists>r. i < r \<and> r < n \<and> d ! i = int r \<and> js_less (bcost ! i) PInf \<and>
            js_less (bcost ! r) PInf \<and> cell (G ! i) r \<noteq> PInf \<and>
            bcost ! i = js_add (bcost ! r) (cell (G ! i) r)"
        then obtain r where r: "i < r" "r < n" "d ! i = int r" "js_less (bcost ! i) PInf"
            "js_less (bcost ! r) PInf" "cell (G ! i) r \<noteq> PInf"
            "bcost ! i = js_add (bcost ! r) (cell (G ! i) r)"
          by blast
        from r(1) i have "r \<noteq> j" by simp
        with r False show ?thesis
          by (intro disjI2 exI[of _ r]) simp
      qed
    qed
  qed
  with mv row show ?thesis
    by (simp add: stage_step_def)
qed

lemma backward_pass_decisions:
  assumes "1 \<le> n" and "n - 1 \<le> length G"
  shows "\<exists>bcost d. backward_pass G n (rev [0 ..< n - 1]) ((replicate n PInf)[n - 1 := Fin 0], replicate n 0) = Inr (bcost, d) \<and>
           decisions_ok G n 0 bcost d"
proof -
  have init: "decisions_ok G n (n - 1) ((replicate n PInf)[n - 1 := Fin 0]) (replicate n 0)"
    using assms(1) by (auto simp: decisions_ok_def)
  have "\<exists>s'. backward_pass G n (rev [0 ..< n - 1]) ((replicate n PInf)[n - 1 := Fin 0], replicate n 0) = Inr s' \<and>
          (case s' of (bcost, d) \<Rightarrow> decisions_ok G n 0 bcost d)"
  proof (rule backward_pass_invariant[where Inv = "\<lambda>k s. case s of (bcost, d) \<Rightarrow> decisions_ok G n k bcost d"])
    fix j s assume a: "case s of (bcost, d) \<Rightarrow> decisions_ok G n (Suc j) bcost d" "j < n - 1"
    obtain bcost d where s: "s = (bcost, d)" by (cases s)
    from a(2) assms(2) have "j < length G" by simp
    from stage_step_decisions[OF _ a(2) this, of bcost d] a(1) s
    show "\<exists>s'. stage_step G n j s = Inr s' \<and> (case s' of (bcost, d) \<Rightarrow> decisions_ok G n j bcost d)"
      by auto
  next
    show "case ((replicate n PInf)[n - 1 := Fin 0], replicate n 0) of (bcost, d) \<Rightarrow> decisions_ok G n (n - 1) bcost d"
      using init by simp
  qed simp
  then show ?thesis by auto
qed

lemma follow_chain:
  assumes inv: "decisions_ok G n 0 bcost d"
  shows "cur < n \<Longrightarrow> idx \<le> length p \<Longrightarrow>
    \<exists>p' chain. follow d n (int cur) p idx = Some (p', idx + length chain) \<and>
       take (idx + length chain) p' = take idx p @ chain \<and>
       sorted_wrt (<) chain \<and> (\<forall>v \<in> set chain. int cur < v \<and> v < int n) \<and>
       length chain \<le> n - 1 - cur \<and>
       (last (int cur # chain) = int n - 1 \<longleftrightarrow> js_less (bcost ! cur) PInf) \<and>
       (js_less (bcost ! cur) PInf \<longrightarrow>
          chain_edges G (int cur # chain) \<and> chain_cost G (int cur # chain) = bcost ! cur)"
proof (induction cur arbitrary: p idx rule: measure_induct_rule[of "\<lambda>c. n - 1 - c"])
  case (less cur)
  from inv have len: "length d = n" and sink: "bcost ! (n - 1) = Fin 0"
    and dec: "\<And>i. i < n - 1 \<Longrightarrow>
       (bcost ! i = PInf \<and> d ! i = - 1) \<or>
       (\<exists>r. i < r \<and> r < n \<and> d ! i = int r \<and> js_less (bcost ! i) PInf \<and>
            js_less (bcost ! r) PInf \<and> cell (G ! i) r \<noteq> PInf \<and>
            bcost ! i = js_add (bcost ! r) (cell (G ! i) r))"
    by (auto simp: decisions_ok_def)
  show ?case
  proof (cases "cur = n - 1")
    case True
    with less.prems have "follow d n (int cur) p idx = Some (p, idx)"
      by (subst follow.simps) (simp add: of_nat_diff)
    moreover have "last [int cur] = int n - 1 \<longleftrightarrow> js_less (bcost ! cur) PInf"
      using True sink less.prems by (simp add: of_nat_diff)
    moreover have "chain_cost G [int cur] = bcost ! cur"
      using True sink by simp
    ultimately show ?thesis
      by (intro exI[of _ p] exI[of _ "[]::int list"]) simp
  next
    case False
    with less.prems have cur: "cur < n - 1" by simp
    then have ne: "int cur \<noteq> int n - 1" by linarith
    from dec[OF cur] show ?thesis
    proof
      assume a: "bcost ! cur = PInf \<and> d ! cur = - 1"
      with ne len less.prems have "follow d n (int cur) p idx = Some (p, idx)"
        by (subst follow.simps) simp
      moreover have "last [int cur] = int n - 1 \<longleftrightarrow> js_less (bcost ! cur) PInf"
        using a ne by simp
      moreover have "\<not> js_less (bcost ! cur) PInf"
        using a by simp
      ultimately show ?thesis
        by (intro exI[of _ p] exI[of _ "[]::int list"]) simp
    next
      assume "\<exists>r. cur < r \<and> r < n \<and> d ! cur = int r \<and> js_less (bcost ! cur) PInf \<and>
            js_less (bcost ! r) PInf \<and> cell (G ! cur) r \<noteq> PInf \<and>
            bcost ! cur = js_add (bcost ! r) (cell (G ! cur) r)"
      then obtain r where r: "cur < r" "r < n" "d ! cur = int r" "js_less (bcost ! cur) PInf"
            "js_less (bcost ! r) PInf" "cell (G ! cur) r \<noteq> PInf"
            "bcost ! cur = js_add (bcost ! r) (cell (G ! cur) r)"
        by blast
      define p1 where "p1 = (if idx < length p then p[idx := int r] else p @ [int r])"
      have p1: "idx + 1 \<le> length p1" "take (idx + 1) p1 = take idx p @ [int r]"
        using less.prems(2) by (auto simp: p1_def take_Suc_conv_app_nth)
      have unfold: "follow d n (int cur) p idx = follow d n (int r) p1 (idx + 1)"
        using ne len less.prems r by (subst follow.simps) (simp add: p1_def)
      from r have "n - 1 - r < n - 1 - cur" by simp
      from less.IH[OF this r(2) p1(1)] obtain p' chain where
        ih: "follow d n (int r) p1 (idx + 1) = Some (p', idx + 1 + length chain)"
          "take (idx + 1 + length chain) p' = take (idx + 1) p1 @ chain"
          "sorted_wrt (<) chain" "\<forall>v \<in> set chain. int r < v \<and> v < int n"
          "length chain \<le> n - 1 - r"
          "last (int r # chain) = int n - 1 \<longleftrightarrow> js_less (bcost ! r) PInf"
          "js_less (bcost ! r) PInf \<longrightarrow>
             chain_edges G (int r # chain) \<and> chain_cost G (int r # chain) = bcost ! r"
        by blast
      show ?thesis
      proof (rule exI[of _ p'], rule exI[of _ "int r # chain"], intro conjI impI)
        show "follow d n (int cur) p idx = Some (p', idx + length (int r # chain))"
          using unfold ih(1) by simp
        show "take (idx + length (int r # chain)) p' = take idx p @ int r # chain"
          using ih(2) p1(2) by simp
        show "sorted_wrt (<) (int r # chain)"
          using ih(3,4) by auto
        show "\<forall>v \<in> set (int r # chain). int cur < v \<and> v < int n"
          using ih(4) r by auto
        show "length (int r # chain) \<le> n - 1 - cur"
          using ih(5) r by simp
        show "last (int cur # int r # chain) = int n - 1 \<longleftrightarrow> js_less (bcost ! cur) PInf"
          using ih(6) r by simp
        show "chain_edges G (int cur # int r # chain)"
          using ih(7) r by simp
        show "chain_cost G (int cur # int r # chain) = bcost ! cur"
          using ih(7) r by simp
      qed
    qed
  qed
qed

lemma backwardCost_runs:
  assumes n: "1 \<le> n" and rows: "n - 1 \<le> length G"
  shows "\<exists>bcost d chain.
           backwardCost G n = Some (Inr \<lparr>minimumCost = bcost ! 0, path = 0 # chain,
                                          bcostArray = bcost, decisionArray = d\<rparr>) \<and>
           backward_pass G n (rev [0 ..< n - 1]) ((replicate n PInf)[n - 1 := Fin 0], replicate n 0) = Inr (bcost, d) \<and>
           decisions_ok G n 0 bcost d \<and>
           sorted_wrt (<) chain \<and> (\<forall>v \<in> set chain. 0 < v \<and> v < int n) \<and> length chain \<le> n - 1 \<and>
           (last (0 # chain) = int n - 1 \<longleftrightarrow> js_less (bcost ! 0) PInf) \<and>
           (js_less (bcost ! 0) PInf \<longrightarrow>
              chain_edges G (0 # chain) \<and> chain_cost G (0 # chain) = bcost ! 0)"
proof -
  from backward_pass_decisions[OF assms] obtain bcost d where
    pass: "backward_pass G n (rev [0 ..< n - 1]) ((replicate n PInf)[n - 1 := Fin 0], replicate n 0) = Inr (bcost, d)"
    and inv: "decisions_ok G n 0 bcost d"
    by blast
  from n have "0 < n" "1 \<le> length (replicate (n + 1) (0::int))" by simp_all
  from follow_chain[OF inv this] obtain p' chain where
    f: "follow d n (int 0) (replicate (n + 1) 0) 1 = Some (p', 1 + length chain)"
      "take (1 + length chain) p' = take 1 (replicate (n + 1) 0) @ chain"
      "sorted_wrt (<) chain" "\<forall>v \<in> set chain. int 0 < v \<and> v < int n"
      "length chain \<le> n - 1 - 0"
      "last (int 0 # chain) = int n - 1 \<longleftrightarrow> js_less (bcost ! 0) PInf"
      "js_less (bcost ! 0) PInf \<longrightarrow>
          chain_edges G (int 0 # chain) \<and> chain_cost G (int 0 # chain) = bcost ! 0"
    by blast
  from f(2) have "take (1 + length chain) p' = 0 # chain"
    by simp
  with pass f(1) have "backwardCost G n = Some (Inr \<lparr>minimumCost = bcost ! 0, path = 0 # chain,
                                          bcostArray = bcost, decisionArray = d\<rparr>)"
    by (simp add: backwardCost_def)
  with pass inv f(3-7) show ?thesis
    by (intro exI[of _ bcost] exI[of _ d] exI[of _ chain]) simp
qed



lemma backwardCost_missing_row:
  assumes "length G < n - 1"
  shows "backwardCost G n = Some (Inl TypeError)"
proof -
  from assms have "n - 1 = Suc (n - 2)" by simp
  then have "rev [0 ..< n - 1] = (n - 2) # rev [0 ..< n - 2]"
    by simp
  moreover from assms have "stage_step G n (n - 2) s = Inl TypeError" for s
    by (cases s) (simp add: stage_step_def)
  ultimately show ?thesis
    by (simp add: backwardCost_def)
qed

subsection \<open>A chain of decisions that reaches the sink is a route\<close>

lemma ascending_route_hd_le: "ascending_route G t p \<Longrightarrow> hd p \<le> t"
  by (induction G t p rule: ascending_route.induct) auto

lemma ascending_route_cases:
  assumes "ascending_route G t p"
  shows "p = [t] \<or> (\<exists>q. p = hd p # q \<and> hd p < hd q \<and> G ! hd p ! hd q \<noteq> PInf \<and> ascending_route G t q)"
proof (cases p)
  case Nil
  with assms show ?thesis by simp
next
  case (Cons u q)
  with assms show ?thesis by (cases q) auto
qed

lemma square_cell:
  assumes "square G n" and "j < n" and "r < n"
  shows "cell (G ! j) r = G ! j ! r"
proof -
  from assms have "length (G ! j) = n"
    by (auto simp: square_def list_all_length)
  with assms(3) show ?thesis
    by (simp add: cell_def)
qed

lemma chain_route:
  assumes sq: "square G n"
  shows "c < n \<Longrightarrow> sorted_wrt (<) (int c # chain) \<Longrightarrow> \<forall>v \<in> set chain. v < int n \<Longrightarrow>
         chain_edges G (int c # chain) \<Longrightarrow> last (int c # chain) = int n - 1 \<Longrightarrow>
         ascending_route G (n - 1) (c # map nat chain) \<and>
         route_cost G (c # map nat chain) = chain_cost G (int c # chain)"
proof (induction chain arbitrary: c)
  case Nil
  then have "c = n - 1" by auto
  then show ?case by simp
next
  case (Cons v vs)
  define r where "r = nat v"
  from Cons.prems(2) have cv: "int c < v" by simp
  then have v: "int r = v" and cr: "c < r" by (auto simp: r_def)
  from Cons.prems(3) v have rn: "r < n" by simp
  have "ascending_route G (n - 1) (r # map nat vs) \<and>
        route_cost G (r # map nat vs) = chain_cost G (int r # vs)"
  proof (rule Cons.IH[OF rn])
    show "sorted_wrt (<) (int r # vs)" using Cons.prems(2) v by simp
    show "\<forall>v \<in> set vs. v < int n" using Cons.prems(3) by simp
    show "chain_edges G (int r # vs)" using Cons.prems(4) v by simp
    show "last (int r # vs) = int n - 1" using Cons.prems(5) v by simp
  qed
  moreover from Cons.prems(4) have "cell (G ! c) r \<noteq> PInf"
    by (simp add: r_def)
  moreover note square_cell[OF sq Cons.prems(1) rn] cr
  ultimately show ?case
    by (simp add: v r_def[symmetric])
qed

text \<open>
  Claim C5, as amended: \<open>backwardCost\<close> checks no dimension and has no
  ShapeError. On every well-shaped matrix it returns a result, and when no ascending
  route leads from vertex 0 to the sink, the result says so: the minimum cost is
  \<open>Infinity\<close> and the path does not end at \<open>n - 1\<close>. More generally, whenever
  rows \<open>0\<close> to \<open>n - 2\<close> exist, whatever their lengths, it returns a result, whose
  minimum cost is \<open>Infinity\<close> exactly when the returned path does not end at
  \<open>n - 1\<close>. When one of those rows is missing, the first cell read throws a TypeError.
\<close>

theorem unreachable_sink_is_a_result:
  assumes "1 \<le> n"
  shows "(square G n \<longrightarrow>
           (\<exists>r. backwardCost G n = Some (Inr r) \<and>
                (\<not> (\<exists>p. hd p = 0 \<and> ascending_route G (n - 1) p) \<longrightarrow>
                   minimumCost r = PInf \<and> last (path r) \<noteq> int n - 1))) \<and>
         (n - 1 \<le> length G \<longrightarrow>
           (\<exists>r. backwardCost G n = Some (Inr r) \<and>
                (minimumCost r = PInf \<longleftrightarrow> last (path r) \<noteq> int n - 1))) \<and>
         (length G < n - 1 \<longrightarrow> backwardCost G n = Some (Inl TypeError))"
proof (intro conjI impI)
  assume sq: "square G n"
  then have "n - 1 \<le> length G" by (simp add: square_def)
  from backwardCost_runs[OF assms this] obtain bcost d chain where
    r: "backwardCost G n = Some (Inr \<lparr>minimumCost = bcost ! 0, path = 0 # chain,
                                          bcostArray = bcost, decisionArray = d\<rparr>)"
    and inv: "decisions_ok G n 0 bcost d"
    and c: "sorted_wrt (<) chain" "\<forall>v \<in> set chain. 0 < v \<and> v < int n"
    and l: "last (0 # chain) = int n - 1 \<longleftrightarrow> js_less (bcost ! 0) PInf"
    and e: "js_less (bcost ! 0) PInf \<longrightarrow> chain_edges G (0 # chain) \<and> chain_cost G (0 # chain) = bcost ! 0"
    by blast
  have proper: "bcost ! 0 = PInf \<or> js_less (bcost ! 0) PInf"
  proof (cases "n = 1")
    case True
    with inv show ?thesis by (simp add: decisions_ok_def)
  next
    case False
    with assms have "0 < n - 1" by simp
    with inv show ?thesis unfolding decisions_ok_def by blast
  qed
  have "bcost ! 0 = PInf \<and> last (0 # chain) \<noteq> int n - 1"
    if none: "\<not> (\<exists>p. hd p = 0 \<and> ascending_route G (n - 1) p)"
  proof (rule ccontr)
    assume "\<not> (bcost ! 0 = PInf \<and> last (0 # chain) \<noteq> int n - 1)"
    with proper l have p: "js_less (bcost ! 0) PInf" by auto
    have "ascending_route G (n - 1) (0 # map nat chain) \<and>
          route_cost G (0 # map nat chain) = chain_cost G (int 0 # chain)"
    proof (rule chain_route[OF sq])
      show "0 < n" using assms by simp
      show "sorted_wrt (<) (int 0 # chain)" using c by auto
      show "\<forall>v \<in> set chain. v < int n" using c(2) by simp
      show "chain_edges G (int 0 # chain)" using e p by simp
      show "last (int 0 # chain) = int n - 1" using l p by simp
    qed
    with none show False
      by (auto dest: spec[of _ "0 # map nat chain"])
  qed
  with r show "\<exists>r. backwardCost G n = Some (Inr r) \<and>
                (\<not> (\<exists>p. hd p = 0 \<and> ascending_route G (n - 1) p) \<longrightarrow>
                   minimumCost r = PInf \<and> last (path r) \<noteq> int n - 1)"
    by simp
next
  assume "n - 1 \<le> length G"
  from backwardCost_runs[OF assms this] obtain bcost d chain where
    r: "backwardCost G n = Some (Inr \<lparr>minimumCost = bcost ! 0, path = 0 # chain,
                                          bcostArray = bcost, decisionArray = d\<rparr>)"
    and inv: "decisions_ok G n 0 bcost d"
    and l: "last (0 # chain) = int n - 1 \<longleftrightarrow> js_less (bcost ! 0) PInf"
    by blast
  have "bcost ! 0 = PInf \<or> js_less (bcost ! 0) PInf"
  proof (cases "n = 1")
    case True
    with inv show ?thesis by (simp add: decisions_ok_def)
  next
    case False
    with assms have "0 < n - 1" by simp
    with inv show ?thesis unfolding decisions_ok_def by blast
  qed
  with r l show "\<exists>r. backwardCost G n = Some (Inr r) \<and>
                (minimumCost r = PInf \<longleftrightarrow> last (path r) \<noteq> int n - 1)"
    by auto
next
  assume "length G < n - 1"
  then show "backwardCost G n = Some (Inl TypeError)"
    by (rule backwardCost_missing_row)
qed

text \<open>
  Claim C5 as stated fails: a matrix declared with 2 vertices whose rows have 3 cells
  and 1 cell is solved like any other.
\<close>

theorem malformed_matrix_is_solved:
  "\<not> square [[PInf, Fin 5, Fin 1], [PInf]] 2 \<and>
   backwardCost [[PInf, Fin 5, Fin 1], [PInf]] 2 =
     Some (Inr \<lparr>minimumCost = Fin 5, path = [0, 1], bcostArray = [Fin 5, Fin 0], decisionArray = [1, 0]\<rparr>)"
proof
  show "\<not> square [[PInf, Fin 5, Fin 1], [PInf]] 2"
    by (simp add: square_def)
  show "backwardCost [[PInf, Fin 5, Fin 1], [PInf]] 2 =
     Some (Inr \<lparr>minimumCost = Fin 5, path = [0, 1], bcostArray = [Fin 5, Fin 0], decisionArray = [1, 0]\<rparr>)"
    by (simp add: backwardCost_def stage_step_def cell_def follow.simps fl_int upt_rec eval_nat_numeral)
qed

theorem unreachable_sink_is_a_result_witness:
  "(1::nat) \<le> 3 \<and>
   square [[PInf, Fin 1, PInf], [PInf, PInf, PInf], [PInf, PInf, PInf]] 3 \<and>
   (\<nexists>p. hd p = 0 \<and> ascending_route [[PInf, Fin 1, PInf], [PInf, PInf, PInf], [PInf, PInf, PInf]] (3 - 1) p) \<and>
   (\<exists>r. backwardCost [[PInf, Fin 1, PInf], [PInf, PInf, PInf], [PInf, PInf, PInf]] 3 = Some (Inr r) \<and>
        minimumCost r = PInf \<and> path r = [0] \<and> last (path r) \<noteq> int 3 - 1) \<and>
   backwardCost [[PInf, Fin 1, PInf]] 3 = Some (Inl TypeError)"
proof -
  let ?G = "[[PInf, Fin 1, PInf], [PInf, PInf, PInf], [PInf, PInf, PInf]]"
  have sq: "square ?G 3"
    by (simp add: square_def)
  have run: "backwardCost ?G 3 =
     Some (Inr \<lparr>minimumCost = PInf, path = [0], bcostArray = [PInf, PInf, Fin 0], decisionArray = [- 1, - 1, 0]\<rparr>)"
    by (simp add: backwardCost_def stage_step_def cell_def follow.simps fl_int upt_rec eval_nat_numeral)
  have none: "\<nexists>p. hd p = 0 \<and> ascending_route ?G (3 - 1) p"
  proof
    assume "\<exists>p. hd p = 0 \<and> ascending_route ?G (3 - 1) p"
    then obtain p where p: "hd p = 0" "ascending_route ?G 2 p" by auto
    from ascending_route_cases[OF p(2)] p(1) obtain q where
      q: "0 < hd q" "?G ! 0 ! hd q \<noteq> PInf" "ascending_route ?G 2 q"
      by auto
    from ascending_route_hd_le[OF q(3)] q(1) have "hd q = 1 \<or> hd q = 2" by auto
    with q(2) have q1: "hd q = 1" by auto
    from ascending_route_cases[OF q(3)] q1 obtain q' where
      q': "1 < hd q'" "?G ! 1 ! hd q' \<noteq> PInf" "ascending_route ?G 2 q'"
      by auto
    from ascending_route_hd_le[OF q'(3)] q'(1) have "hd q' = 2" by auto
    with q'(2) show False by simp
  qed
  from unreachable_sink_is_a_result[of 3 "[[PInf, Fin 1, PInf]]"] run sq none show ?thesis
    by simp
qed

subsection \<open>The minimum cost is the least accumulated cost of a route\<close>

lemma ascending_route_Cons:
  "ascending_route G t q \<Longrightarrow> j < hd q \<Longrightarrow> G ! j ! hd q \<noteq> PInf \<Longrightarrow> ascending_route G t (j # q)"
  by (cases q) auto

lemma route_cost_Cons:
  "ascending_route G t q \<Longrightarrow> route_cost G (j # q) = js_add (route_cost G q) (G ! j ! hd q)"
  by (cases q) auto

lemma cheapest_sink: "cheapest G t t (Fin 0)"
proof -
  have only: "p = [t]" if "hd p = t" "ascending_route G t p" for p
  proof -
    from ascending_route_cases[OF that(2)] show ?thesis
    proof
      assume "\<exists>q. p = hd p # q \<and> hd p < hd q \<and> G ! hd p ! hd q \<noteq> PInf \<and> ascending_route G t q"
      then obtain q where "hd p < hd q" "ascending_route G t q" by blast
      with ascending_route_hd_le[of G t q] that(1) show ?thesis by simp
    qed
  qed
  have "js_le (Fin 0) (route_cost G p)" if "hd p = t" "ascending_route G t p" for p
    using only[OF that] by simp
  then have "\<forall>p. hd p = t \<and> ascending_route G t p \<longrightarrow> js_le (Fin 0) (route_cost G p)"
    by blast
  moreover have "hd [t] = t \<and> ascending_route G t [t] \<and> route_cost G [t] = Fin 0"
    by simp
  ultimately show ?thesis
    unfolding cheapest_def by blast
qed

lemma cost_matrix_cell:
  assumes "cost_matrix G n" and "j < n" and "r < n"
  shows "cell (G ! j) r = G ! j ! r" and "G ! j ! r = PInf \<or> (\<exists>e. G ! j ! r = Fin e)" and "j < length G"
proof -
  from assms have len: "length G = n" and row: "length (G ! j) = n"
    by (auto simp: cost_matrix_def square_def list_all_length)
  from assms len have "list_all is_cost (G ! j)"
    by (auto simp: cost_matrix_def list_all_length)
  with row assms(3) have "is_cost (G ! j ! r)"
    by (simp add: list_all_length)
  then show "G ! j ! r = PInf \<or> (\<exists>e. G ! j ! r = Fin e)"
    by (cases "G ! j ! r") auto
  from row assms(3) show "cell (G ! j) r = G ! j ! r"
    by (simp add: cell_def)
  from len assms(2) show "j < length G" by simp
qed

lemma stage_step_cheapest:
  assumes cm: "cost_matrix G n" and j: "j < n - 1" and len: "length bcost = n"
    and old: "\<And>i. Suc j \<le> i \<Longrightarrow> i < n \<Longrightarrow> cheapest G (n - 1) i (bcost ! i)"
  shows "\<exists>bcost' d'. stage_step G n j (bcost, d) = Inr (bcost', d') \<and> length bcost' = n \<and>
           (\<forall>i. j \<le> i \<and> i < n \<longrightarrow> cheapest G (n - 1) i (bcost' ! i))"
proof -
  obtain m v where mv: "fold (scan_step (G ! j) bcost) [j + 1 ..< n] (PInf, - 1) = (m, v)"
    by (cases "fold (scan_step (G ! j) bcost) [j + 1 ..< n] (PInf, - 1)") auto
  from j have jn: "j < n" by simp
  note cellj = cost_matrix_cell[OF cm jn]
  from cm jn have rowj: "j < length G"
    by (simp add: cost_matrix_def square_def)
  define tot where "tot r = js_add (bcost ! r) (cell (G ! j) r)" for r
  \<comment> \<open>every route from \<open>j\<close> goes through a successor \<open>r\<close> whose candidate is no dearer\<close>
  have through: "\<exists>r. j < r \<and> r < n \<and> tot r \<noteq> NaN \<and> js_le (tot r) (route_cost G p)"
    if p: "hd p = j" "ascending_route G (n - 1) p" for p
  proof -
    from j p(1) have "p \<noteq> [n - 1]" by auto
    with ascending_route_cases[OF p(2)] p(1) obtain q where
      q: "p = j # q" "j < hd q" "G ! j ! hd q \<noteq> PInf" "ascending_route G (n - 1) q"
      by auto
    from ascending_route_hd_le[OF q(4)] j have r: "hd q < n" by simp
    from q(2) have "Suc j \<le> hd q" by simp
    from old[OF this r] q(4) have le: "js_le (bcost ! hd q) (route_cost G q)" and nn: "bcost ! hd q \<noteq> NaN"
      by (auto simp: cheapest_def)
    from q(3) cellj(2)[OF r] obtain e where e: "G ! j ! hd q = Fin e"
      by auto
    from q(1) have "route_cost G p = js_add (route_cost G q) (G ! j ! hd q)"
      using route_cost_Cons[OF q(4)] by simp
    with e js_add_mono[OF le, of e] cellj(1)[OF r] have "js_le (tot (hd q)) (route_cost G p)"
      by (simp add: tot_def)
    moreover from e js_add_Fin_not_NaN[OF nn, of e] cellj(1)[OF r] have "tot (hd q) \<noteq> NaN"
      by (simp add: tot_def)
    ultimately show ?thesis using q(2) r by blast
  qed
  have "cheapest G (n - 1) j m"
    using scan_result[OF mv]
  proof
    assume a: "m = PInf \<and> v = - 1 \<and> (\<forall>r \<in> set [j + 1 ..< n]. \<not> js_less (js_add (bcost ! r) (cell (G ! j) r)) PInf)"
    have "js_le PInf (route_cost G p)" if p: "hd p = j" "ascending_route G (n - 1) p" for p
    proof -
      from through[OF p] obtain r where r: "j < r" "r < n" "tot r \<noteq> NaN" "js_le (tot r) (route_cost G p)"
        by blast
      from r(1,2) have "r \<in> set [j + 1 ..< n]" by simp
      with a have "\<not> js_less (tot r) PInf" by (simp add: tot_def)
      with r(3) have "tot r = PInf" by (cases "tot r") auto
      with r(4) show ?thesis by simp
    qed
    with a show ?thesis by (simp add: cheapest_def)
  next
    assume "\<exists>r \<in> set [j + 1 ..< n]. v = int r \<and> m = js_add (bcost ! r) (cell (G ! j) r) \<and> js_less m PInf \<and>
        (\<forall>r' \<in> set [j + 1 ..< n]. \<not> js_less (js_add (bcost ! r') (cell (G ! j) r')) m)"
    then obtain r where rin: "r \<in> set [j + 1 ..< n]"
      and rc: "m = tot r" "js_less m PInf"
      and all: "\<forall>r' \<in> set [j + 1 ..< n]. \<not> js_less (tot r') m"
      by (auto simp: tot_def)
    from rin have r: "j < r" "r < n" by simp_all
    from rc(2) have mn: "m \<noteq> NaN" by auto
    from js_add_proper[of "bcost ! r" "cell (G ! j) r"] rc
    have pr: "js_less (bcost ! r) PInf" "js_less (cell (G ! j) r) PInf"
      by (simp_all add: tot_def)
    from pr(2) cellj(1)[OF r(2)] have edge: "G ! j ! r \<noteq> PInf" by auto
    from pr(1) have "bcost ! r \<noteq> PInf" by auto
    moreover from r(1) have "Suc j \<le> r" by simp
    ultimately obtain q where
      q: "hd q = r" "ascending_route G (n - 1) q" "route_cost G q = bcost ! r"
      using old[OF _ r(2)] by (auto simp: cheapest_def)
    have "ascending_route G (n - 1) (j # q)"
      using q r(1) edge by (intro ascending_route_Cons) simp_all
    moreover have "route_cost G (j # q) = m"
      using route_cost_Cons[OF q(2), of j] q rc(1) cellj(1)[OF r(2)] by (simp add: tot_def)
    ultimately have ex: "\<exists>p. hd p = j \<and> ascending_route G (n - 1) p \<and> route_cost G p = m"
      by (intro exI[of _ "j # q"]) simp
    have "js_le m (route_cost G p)" if p: "hd p = j" "ascending_route G (n - 1) p" for p
    proof -
      from through[OF p] obtain r' where
        t: "j < r'" "r' < n" "tot r' \<noteq> NaN" "js_le (tot r') (route_cost G p)"
        by blast
      from t(1,2) have "r' \<in> set [j + 1 ..< n]" by simp
      with all have "\<not> js_less (tot r') m" by blast
      with mn t(3) have "js_le m (tot r')" by (simp add: not_js_less)
      from js_le_trans[OF this t(4)] show ?thesis .
    qed
    with ex mn show ?thesis by (simp add: cheapest_def)
  qed
  moreover have "cheapest G (n - 1) i (bcost[j := m] ! i)" if "Suc j \<le> i" "i < n" for i
    using old[OF that] that by simp
  ultimately have "\<forall>i. j \<le> i \<and> i < n \<longrightarrow> cheapest G (n - 1) i (bcost[j := m] ! i)"
    using len jn by (metis Suc_leI le_neq_implies_less nth_list_update_eq)
  with mv rowj len show ?thesis
    by (simp add: stage_step_def)
qed

lemma backward_pass_cheapest:
  assumes n: "1 \<le> n" and cm: "cost_matrix G n"
  shows "\<exists>bcost d. backward_pass G n (rev [0 ..< n - 1]) ((replicate n PInf)[n - 1 := Fin 0], replicate n 0) = Inr (bcost, d) \<and>
           cheapest G (n - 1) 0 (bcost ! 0)"
proof -
  have "\<exists>s'. backward_pass G n (rev [0 ..< n - 1]) ((replicate n PInf)[n - 1 := Fin 0], replicate n 0) = Inr s' \<and>
          (length (fst s') = n \<and> (\<forall>i. 0 \<le> i \<and> i < n \<longrightarrow> cheapest G (n - 1) i (fst s' ! i)))"
  proof (rule backward_pass_invariant[where
        Inv = "\<lambda>k (s :: jsnum list \<times> int list). length (fst s) = n \<and> (\<forall>i. k \<le> i \<and> i < n \<longrightarrow> cheapest G (n - 1) i (fst s ! i))"])
    fix j and s :: "jsnum list \<times> int list"
    assume a: "length (fst s) = n \<and> (\<forall>i. Suc j \<le> i \<and> i < n \<longrightarrow> cheapest G (n - 1) i (fst s ! i))"
      and j: "j < n - 1"
    obtain bcost d where s: "s = (bcost, d)" by (cases s)
    from a s have "length bcost = n" "\<And>i. Suc j \<le> i \<Longrightarrow> i < n \<Longrightarrow> cheapest G (n - 1) i (bcost ! i)"
      by simp_all
    from stage_step_cheapest[OF cm j this, where d = d] s
    show "\<exists>s'. stage_step G n j s = Inr s' \<and>
            (length (fst s') = n \<and> (\<forall>i. j \<le> i \<and> i < n \<longrightarrow> cheapest G (n - 1) i (fst s' ! i)))"
      by auto
  next
    have "cheapest G (n - 1) i ((replicate n PInf)[n - 1 := Fin 0] ! i)" if "n - 1 \<le> i" "i < n" for i
    proof -
      from that have "i = n - 1" by simp
      with that(2) cheapest_sink[of G "n - 1"] show ?thesis by simp
    qed
    then show "length (fst ((replicate n PInf)[n - 1 := Fin 0], replicate n (0::int))) = n \<and>
      (\<forall>i. n - 1 \<le> i \<and> i < n \<longrightarrow>
         cheapest G (n - 1) i (fst ((replicate n PInf)[n - 1 := Fin 0], replicate n (0::int)) ! i))"
      by auto
  qed simp
  then obtain bcost d where
    "backward_pass G n (rev [0 ..< n - 1]) ((replicate n PInf)[n - 1 := Fin 0], replicate n 0) = Inr (bcost, d)"
    "\<forall>i. 0 \<le> i \<and> i < n \<longrightarrow> cheapest G (n - 1) i (bcost ! i)"
    by auto
  moreover from n have "0 < n" by simp
  ultimately show ?thesis by blast
qed

text \<open>
  Claim C1 as stated fails. The code adds in double precision, so the minimum cost is
  not the exact sum along a route, and a sum that overflows is \<open>Infinity\<close>, the value
  that stands for no route. With two edges of \<open>2 ^ 1023\<close> (a double) on the only
  route 0, 1, 2, the route exists and its exact cost \<open>2 ^ 1024\<close> is finite, but the
  minimum cost returned is \<open>Infinity\<close> and the path stops at vertex 0.
\<close>

theorem overflowing_route_costs_infinity:
  "fl (2 ^ 1023) = Fin (2 ^ 1023) \<and>
   cost_matrix [[PInf, Fin (2 ^ 1023), PInf], [PInf, PInf, Fin (2 ^ 1023)], [PInf, PInf, PInf]] 3 \<and>
   hd [0, 1, 2] = (0::nat) \<and>
   ascending_route [[PInf, Fin (2 ^ 1023), PInf], [PInf, PInf, Fin (2 ^ 1023)], [PInf, PInf, PInf]] (3 - 1) [0, 1, 2] \<and>
   backwardCost [[PInf, Fin (2 ^ 1023), PInf], [PInf, PInf, Fin (2 ^ 1023)], [PInf, PInf, PInf]] 3 =
     Some (Inr \<lparr>minimumCost = PInf, path = [0], bcostArray = [PInf, Fin (2 ^ 1023), Fin 0],
                decisionArray = [- 1, 2, 0]\<rparr>)"
proof -
  have d: "fl (2 ^ 1023) = Fin (2 ^ 1023)"
    using fl_dyadic[of "2 ^ 52" 971] by simp
  have o: "fl (2 ^ 1023 + 2 ^ 1023) = PInf"
    using fl_at[of 1024 "2 ^ 1023 + 2 ^ 1023"] by (simp add: rne_def)
  have "backwardCost [[PInf, Fin (2 ^ 1023), PInf], [PInf, PInf, Fin (2 ^ 1023)], [PInf, PInf, PInf]] 3 =
     Some (Inr \<lparr>minimumCost = PInf, path = [0], bcostArray = [PInf, Fin (2 ^ 1023), Fin 0],
                decisionArray = [- 1, 2, 0]\<rparr>)"
    using d o
    by (simp add: backwardCost_def stage_step_def cell_def follow.simps upt_rec eval_nat_numeral)
  with d show ?thesis
    by (simp add: cost_matrix_def square_def)
qed

text \<open>
  Claim C1, as amended: for an \<open>n \<times> n\<close> matrix of finite numbers and
  \<open>Infinity\<close> with \<open>n \<ge> 2\<close>, \<open>backwardCost\<close> returns, and its minimum
  cost is the least cost of an ascending route from vertex 0 to vertex \<open>n - 1\<close>
  when the cost of a route is accumulated in double precision from the sink
  backwards: it is not \<open>NaN\<close>, no route has a smaller accumulated cost, and unless it
  is \<open>Infinity\<close> some route has exactly that accumulated cost. It is \<open>Infinity\<close>
  exactly when the accumulated cost of every route is \<open>Infinity\<close>, which includes
  the case of no route.
\<close>

theorem minimum_cost_is_cheapest_route:
  assumes "2 \<le> n" and "cost_matrix G n"
  shows "\<exists>r. backwardCost G n = Some (Inr r) \<and>
           minimumCost r \<noteq> NaN \<and>
           (minimumCost r \<noteq> PInf \<longrightarrow>
              (\<exists>p. hd p = 0 \<and> ascending_route G (n - 1) p \<and> route_cost G p = minimumCost r)) \<and>
           (\<forall>p. hd p = 0 \<and> ascending_route G (n - 1) p \<longrightarrow> js_le (minimumCost r) (route_cost G p)) \<and>
           (minimumCost r = PInf \<longleftrightarrow>
              (\<forall>p. hd p = 0 \<and> ascending_route G (n - 1) p \<longrightarrow> route_cost G p = PInf))"
proof -
  from assms have n: "1 \<le> n" and rows: "n - 1 \<le> length G"
    by (simp_all add: cost_matrix_def square_def)
  from backwardCost_runs[OF n rows] obtain bcost d chain where
    r: "backwardCost G n = Some (Inr \<lparr>minimumCost = bcost ! 0, path = 0 # chain,
                                          bcostArray = bcost, decisionArray = d\<rparr>)"
    and pass: "backward_pass G n (rev [0 ..< n - 1]) ((replicate n PInf)[n - 1 := Fin 0], replicate n 0) = Inr (bcost, d)"
    by blast
  from backward_pass_cheapest[OF n assms(2)] pass have best: "cheapest G (n - 1) 0 (bcost ! 0)"
    by auto
  then have nn: "bcost ! 0 \<noteq> NaN"
    and att: "bcost ! 0 \<noteq> PInf \<longrightarrow>
              (\<exists>p. hd p = 0 \<and> ascending_route G (n - 1) p \<and> route_cost G p = bcost ! 0)"
    and low: "\<forall>p. hd p = 0 \<and> ascending_route G (n - 1) p \<longrightarrow> js_le (bcost ! 0) (route_cost G p)"
    by (auto simp: cheapest_def)
  have "bcost ! 0 = PInf \<longleftrightarrow>
          (\<forall>p. hd p = 0 \<and> ascending_route G (n - 1) p \<longrightarrow> route_cost G p = PInf)"
  proof
    assume "bcost ! 0 = PInf"
    with low show "\<forall>p. hd p = 0 \<and> ascending_route G (n - 1) p \<longrightarrow> route_cost G p = PInf"
      by (simp add: js_le_PInf)
  next
    assume all: "\<forall>p. hd p = 0 \<and> ascending_route G (n - 1) p \<longrightarrow> route_cost G p = PInf"
    show "bcost ! 0 = PInf"
    proof (rule ccontr)
      assume "bcost ! 0 \<noteq> PInf"
      with att obtain p where "hd p = 0" "ascending_route G (n - 1) p" "route_cost G p = bcost ! 0"
        by blast
      with all \<open>bcost ! 0 \<noteq> PInf\<close> show False by auto
    qed
  qed
  with r nn att low show ?thesis by simp
qed

theorem minimum_cost_is_cheapest_route_witness:
  "(2::nat) \<le> 4 \<and>
   cost_matrix [[PInf, Fin 2, Fin 3, PInf], [PInf, PInf, PInf, Fin 4], [PInf, PInf, PInf, Fin 5], [PInf, PInf, PInf, PInf]] 4 \<and>
   (\<exists>r. backwardCost [[PInf, Fin 2, Fin 3, PInf], [PInf, PInf, PInf, Fin 4], [PInf, PInf, PInf, Fin 5], [PInf, PInf, PInf, PInf]] 4 = Some (Inr r) \<and>
        minimumCost r = Fin 6 \<and>
        (\<exists>p. hd p = 0 \<and>
           ascending_route [[PInf, Fin 2, Fin 3, PInf], [PInf, PInf, PInf, Fin 4], [PInf, PInf, PInf, Fin 5], [PInf, PInf, PInf, PInf]] (4 - 1) p \<and>
           route_cost [[PInf, Fin 2, Fin 3, PInf], [PInf, PInf, PInf, Fin 4], [PInf, PInf, PInf, Fin 5], [PInf, PInf, PInf, PInf]] p = Fin 6))"
proof -
  have cm: "cost_matrix [[PInf, Fin 2, Fin 3, PInf], [PInf, PInf, PInf, Fin 4], [PInf, PInf, PInf, Fin 5], [PInf, PInf, PInf, PInf]] 4"
    by (simp add: cost_matrix_def square_def)
  have run: "backwardCost [[PInf, Fin 2, Fin 3, PInf], [PInf, PInf, PInf, Fin 4], [PInf, PInf, PInf, Fin 5], [PInf, PInf, PInf, PInf]] 4 =
      Some (Inr \<lparr>minimumCost = Fin 6, path = [0, 1, 3], bcostArray = [Fin 6, Fin 4, Fin 5, Fin 0], decisionArray = [1, 3, 3, 0]\<rparr>)"
    by (simp add: backwardCost_def stage_step_def cell_def follow.simps fl_int upt_rec eval_nat_numeral)
  from minimum_cost_is_cheapest_route[OF _ cm] run cm show ?thesis
    by simp
qed

section \<open>Properties of the nearest-neighbour tour\<close>

subsection \<open>The loop keeps the tour and the visited marks together\<close>

lemma nearest_result:
  "fold (nearest_step visited row) cs (- 1, PInf) = (nc, md) \<Longrightarrow>
     (nc = - 1 \<and> md = PInf \<and> (\<forall>c \<in> set cs. visited ! c \<or> \<not> js_less (cell row c) PInf)) \<or>
     (\<exists>c \<in> set cs. nc = int c \<and> \<not> visited ! c \<and> md = cell row c \<and> js_less md PInf)"
proof (induction cs arbitrary: nc md rule: rev_induct)
  case Nil
  then show ?case by simp
next
  case (snoc c cs)
  obtain nc0 md0 where s0: "fold (nearest_step visited row) cs (- 1, PInf) = (nc0, md0)"
    by (cases "fold (nearest_step visited row) cs (- 1, PInf)") auto
  from snoc.prems s0 have step: "nearest_step visited row c (nc0, md0) = (nc, md)"
    by simp
  note ih = snoc.IH[OF s0]
  show ?case
  proof (cases "\<not> visited ! c \<and> js_less (cell row c) md0")
    case True
    with step have "nc = int c" "md = cell row c" by auto
    moreover from True have "js_less (cell row c) PInf" by (auto simp: js_less_iff)
    ultimately show ?thesis using True by auto
  next
    case False
    with step have same: "nc = nc0" "md = md0" by auto
    from ih show ?thesis
    proof
      assume a: "nc0 = - 1 \<and> md0 = PInf \<and> (\<forall>c \<in> set cs. visited ! c \<or> \<not> js_less (cell row c) PInf)"
      with False have "visited ! c \<or> \<not> js_less (cell row c) PInf"
        by auto
      with a same show ?thesis by auto
    next
      assume "\<exists>c \<in> set cs. nc0 = int c \<and> \<not> visited ! c \<and> md0 = cell row c \<and> js_less md0 PInf"
      with same show ?thesis by auto
    qed
  qed
qed

lemma visit_step_cases:
  "visit_step D (visited, t, td, cur) = (visited, t, td, cur) \<and>
     (\<forall>c < length D. visited ! c \<or> \<not> js_less (cell (D ! cur) c) PInf) \<or>
   (\<exists>c < length D. \<not> visited ! c \<and> js_less (cell (D ! cur) c) PInf \<and>
      visit_step D (visited, t, td, cur) =
        (visited[c := True], t @ [c], js_add td (cell (D ! cur) c), c))"
proof -
  obtain nc md where f: "fold (nearest_step visited (D ! cur)) [0 ..< length D] (- 1, PInf) = (nc, md)"
    by (cases "fold (nearest_step visited (D ! cur)) [0 ..< length D] (- 1, PInf)") auto
  from nearest_result[OF f] show ?thesis
  proof
    assume "nc = - 1 \<and> md = PInf \<and> (\<forall>c \<in> set [0 ..< length D]. visited ! c \<or> \<not> js_less (cell (D ! cur) c) PInf)"
    with f show ?thesis by simp
  next
    assume "\<exists>c \<in> set [0 ..< length D]. nc = int c \<and> \<not> visited ! c \<and> md = cell (D ! cur) c \<and> js_less md PInf"
    then obtain c where c: "c < length D" "nc = int c" "\<not> visited ! c" "md = cell (D ! cur) c" "js_less md PInf"
      by auto
    with f have "visit_step D (visited, t, td, cur) =
        (visited[c := True], t @ [c], js_add td (cell (D ! cur) c), c)"
      by simp
    with c show ?thesis by auto
  qed
qed

lemma visit_step_tour_state:
  assumes "tour_state (length D) start s"
  shows "tour_state (length D) start (visit_step D s)"
proof -
  obtain visited t td cur where s: "s = (visited, t, td, cur)"
    by (cases s) auto
  from visit_step_cases[of D visited t td cur] show ?thesis
  proof
    assume "visit_step D (visited, t, td, cur) = (visited, t, td, cur) \<and>
     (\<forall>c < length D. visited ! c \<or> \<not> js_less (cell (D ! cur) c) PInf)"
    with assms s show ?thesis by simp
  next
    assume "\<exists>c < length D. \<not> visited ! c \<and> js_less (cell (D ! cur) c) PInf \<and>
      visit_step D (visited, t, td, cur) =
        (visited[c := True], t @ [c], js_add td (cell (D ! cur) c), c)"
    then obtain c where c: "c < length D" "\<not> visited ! c"
      "visit_step D (visited, t, td, cur) = (visited[c := True], t @ [c], js_add td (cell (D ! cur) c), c)"
      by blast
    from assms s have inv: "length visited = length D" "t \<noteq> []" "hd t = start" "distinct t"
      "\<forall>c < length D. visited ! c \<longleftrightarrow> c \<in> set t" "\<forall>c \<in> set t. c < length D"
      by (simp_all add: tour_state_def)
    from inv(5) c(1,2) have new: "c \<notin> set t" by simp
    have "visited[c := True] ! c' \<longleftrightarrow> c' \<in> set (t @ [c])" if "c' < length D" for c'
    proof (cases "c' = c")
      case True
      with c(1) inv(1) show ?thesis by simp
    next
      case False
      with inv(5) that show ?thesis by simp
    qed
    then have "\<forall>c' < length D. visited[c := True] ! c' \<longleftrightarrow> c' \<in> set (t @ [c])"
      by blast
    with inv new c(1) have "tour_state (length D) start (visited[c := True], t @ [c], js_add td (cell (D ! cur) c), c)"
      by (simp add: tour_state_def)
    with c(3) s show ?thesis by simp
  qed
qed

lemma visit_steps_tour_state:
  "tour_state (length D) start s \<Longrightarrow> tour_state (length D) start ((visit_step D ^^ k) s)"
  by (induction k) (simp_all add: visit_step_tour_state)

lemma initial_tour_state:
  "start < n \<Longrightarrow> tour_state n start ((replicate n False)[start := True], [start], Fin 0, start)"
  by (auto simp: tour_state_def nth_list_update)

lemma nearestNeighbor_unfold:
  assumes "startCity < length D"
    and "(visit_step D ^^ (length D - 1))
           ((replicate (length D) False)[startCity := True], [startCity], Fin 0, startCity) = (visited, t, td, cur)"
  shows "nearestNeighbor D startCity =
           Inr \<lparr>tour = t @ [startCity], totalDistance = js_add td (cell (D ! cur) startCity),
                allVisited = list_all (\<lambda>v. v = True) visited,
                numCitiesVisited = length (filter (\<lambda>v. v) visited)\<rparr>"
  using assms by (simp add: nearestNeighbor_def Let_def)

text \<open>
  Claim C8: whenever the start city is a row of the matrix, whatever the entries,
  \<open>nearestNeighbor\<close> returns a result and raises nothing; its \<open>allVisited\<close> flag
  is true exactly when every city was marked visited, that is, occurs in the tour.
\<close>

theorem all_visited_flag:
  assumes "startCity < length D"
  shows "\<exists>r. nearestNeighbor D startCity = Inr r \<and>
           (allVisited r \<longleftrightarrow> (\<forall>c < length D. c \<in> set (tour r)))"
proof -
  obtain visited t td cur where
    run: "(visit_step D ^^ (length D - 1))
           ((replicate (length D) False)[startCity := True], [startCity], Fin 0, startCity) = (visited, t, td, cur)"
    using prod_cases4 by blast
  from visit_steps_tour_state[OF initial_tour_state[OF assms], where k = "length D - 1"] run
  have ts: "tour_state (length D) startCity (visited, t, td, cur)"
    by simp
  then have len: "length visited = length D" and mark: "\<forall>c < length D. visited ! c \<longleftrightarrow> c \<in> set t"
    and st: "t \<noteq> []" "hd t = startCity"
    by (simp_all add: tour_state_def)
  from st have "startCity \<in> set t"
    using hd_in_set by blast
  then have "set (t @ [startCity]) = set t" by auto
  moreover have "list_all (\<lambda>v. v = True) visited \<longleftrightarrow> (\<forall>c < length D. visited ! c)"
    using len by (simp add: list_all_length)
  ultimately have "list_all (\<lambda>v. v = True) visited \<longleftrightarrow> (\<forall>c < length D. c \<in> set (t @ [startCity]))"
    using mark by simp
  with nearestNeighbor_unfold[OF assms run] show ?thesis
    by simp
qed

theorem all_visited_flag_witness:
  "(0::nat) < length [[Fin 0, PInf, PInf], [PInf, Fin 0, PInf], [PInf, PInf, Fin 0]] \<and>
   nearestNeighbor [[Fin 0, PInf, PInf], [PInf, Fin 0, PInf], [PInf, PInf, Fin 0]] 0 =
     Inr \<lparr>tour = [0, 0], totalDistance = Fin 0, allVisited = False, numCitiesVisited = 1\<rparr> \<and>
   (\<exists>c < length [[Fin 0, PInf, PInf], [PInf, Fin 0, PInf], [PInf, PInf, Fin 0]]. c \<notin> set [0, 0 :: nat])"
proof -
  have run: "nearestNeighbor [[Fin 0, PInf, PInf], [PInf, Fin 0, PInf], [PInf, PInf, Fin 0]] 0 =
     Inr \<lparr>tour = [0, 0], totalDistance = Fin 0, allVisited = False, numCitiesVisited = 1\<rparr>"
    by (simp add: nearestNeighbor_def Let_def cell_def fl_int upt_rec eval_nat_numeral)
  from all_visited_flag[of 0 "[[Fin 0, PInf, PInf], [PInf, Fin 0, PInf], [PInf, PInf, Fin 0]]"] run
  show ?thesis by simp
qed

subsection \<open>Finite distances: every iteration visits a new city\<close>

lemma legs_snoc: "t \<noteq> [] \<Longrightarrow> legs D (t @ [c]) = legs D t @ [D ! last t ! c]"
proof (induction t)
  case Nil
  then show ?case by simp
next
  case (Cons u t)
  then show ?case
    by (cases t) (simp_all add: legs_def)
qed

lemma finite_matrix_cell:
  assumes "finite_matrix D" and "i < length D" and "c < length D"
  shows "cell (D ! i) c = D ! i ! c" and "\<exists>x. D ! i ! c = Fin x"
proof -
  from assms have row: "length (D ! i) = length D"
    by (simp add: finite_matrix_def square_def list_all_length)
  from assms have "list_all (\<lambda>x. case x of Fin r \<Rightarrow> True | _ \<Rightarrow> False) (D ! i)"
    by (simp add: finite_matrix_def list_all_length)
  with row assms(3) have "case D ! i ! c of Fin r \<Rightarrow> True | _ \<Rightarrow> False"
    by (simp add: list_all_length)
  then show "\<exists>x. D ! i ! c = Fin x"
    by (cases "D ! i ! c") auto
  from row assms(3) show "cell (D ! i) c = D ! i ! c"
    by (simp add: cell_def)
qed

lemma visit_step_finite:
  assumes fm: "finite_matrix D" and ts: "tour_state (length D) start (visited, t, td, cur)"
    and more: "length t < length D"
  shows "\<exists>c. visit_step D (visited, t, td, cur) =
           (visited[c := True], t @ [c], js_add td (D ! cur ! c), c)"
proof -
  from ts have inv: "cur < length D" "distinct t" "\<forall>c < length D. visited ! c \<longleftrightarrow> c \<in> set t"
    by (simp_all add: tour_state_def)
  from visit_step_cases[of D visited t td cur] show ?thesis
  proof
    assume a: "visit_step D (visited, t, td, cur) = (visited, t, td, cur) \<and>
     (\<forall>c < length D. visited ! c \<or> \<not> js_less (cell (D ! cur) c) PInf)"
    have "visited ! c" if "c < length D" for c
    proof -
      from finite_matrix_cell[OF fm inv(1) that] have "js_less (cell (D ! cur) c) PInf"
        by auto
      with a that show ?thesis by blast
    qed
    with inv(3) have "{..< length D} \<subseteq> set t" by auto
    then have "card {..< length D} \<le> card (set t)"
      by (intro card_mono) simp_all
    with inv(2) more show ?thesis
      by (simp add: distinct_card)
  next
    assume "\<exists>c < length D. \<not> visited ! c \<and> js_less (cell (D ! cur) c) PInf \<and>
      visit_step D (visited, t, td, cur) =
        (visited[c := True], t @ [c], js_add td (cell (D ! cur) c), c)"
    then obtain c where "c < length D" "visit_step D (visited, t, td, cur) =
        (visited[c := True], t @ [c], js_add td (cell (D ! cur) c), c)"
      by blast
    with finite_matrix_cell(1)[OF fm inv(1), of c] show ?thesis
      by auto
  qed
qed

lemma visit_steps_finite:
  assumes fm: "finite_matrix D" and start: "start < length D"
  shows "k < length D \<Longrightarrow>
    \<exists>visited t td cur.
      (visit_step D ^^ k) ((replicate (length D) False)[start := True], [start], Fin 0, start) = (visited, t, td, cur) \<and>
      tour_state (length D) start (visited, t, td, cur) \<and> length t = Suc k \<and>
      td = foldl js_add (Fin 0) (legs D t)"
proof (induction k)
  case 0
  from initial_tour_state[OF start] show ?case by (simp add: legs_def)
next
  case (Suc k)
  then obtain visited t td cur where
    k: "(visit_step D ^^ k) ((replicate (length D) False)[start := True], [start], Fin 0, start) = (visited, t, td, cur)"
      "tour_state (length D) start (visited, t, td, cur)" "length t = Suc k"
      "td = foldl js_add (Fin 0) (legs D t)"
    by auto
  from k(3) Suc.prems have "length t < length D" by simp
  from visit_step_finite[OF fm k(2) this] obtain c where
    c: "visit_step D (visited, t, td, cur) = (visited[c := True], t @ [c], js_add td (D ! cur ! c), c)"
    by blast
  from k(2) have "t \<noteq> []" "last t = cur" by (simp_all add: tour_state_def)
  with k(4) have "js_add td (D ! cur ! c) = foldl js_add (Fin 0) (legs D (t @ [c]))"
    by (simp add: legs_snoc)
  moreover from visit_step_tour_state[OF k(2)] c
  have "tour_state (length D) start (visited[c := True], t @ [c], js_add td (D ! cur ! c), c)"
    by simp
  ultimately show ?case using k(1,3) c by simp
qed

text \<open>
  Claim C3 as stated fails in its second half. The total distance is accumulated in
  double precision, one leg after the other, and is not the sum of the legs: with the
  non-negative distances below, the legs of the returned tour are 1, \<open>2 ^ 53\<close> and
  2, whose sum is \<open>2 ^ 53 + 3\<close>, and the total returned is \<open>2 ^ 53 + 2\<close>.
\<close>

theorem total_distance_is_rounded:
  "finite_matrix [[Fin 0, Fin 1, Fin 5], [Fin 1, Fin 0, Fin (2 ^ 53)], [Fin 2, Fin (2 ^ 53), Fin 0]] \<and>
   fl (2 ^ 53) = Fin (2 ^ 53) \<and>
   nearestNeighbor [[Fin 0, Fin 1, Fin 5], [Fin 1, Fin 0, Fin (2 ^ 53)], [Fin 2, Fin (2 ^ 53), Fin 0]] 0 =
     Inr \<lparr>tour = [0, 1, 2, 0], totalDistance = Fin (2 ^ 53 + 2), allVisited = True, numCitiesVisited = 3\<rparr> \<and>
   legs [[Fin 0, Fin 1, Fin 5], [Fin 1, Fin 0, Fin (2 ^ 53)], [Fin 2, Fin (2 ^ 53), Fin 0]] [0, 1, 2, 0] =
     map Fin [1, 2 ^ 53, 2] \<and>
   Fin (2 ^ 53 + 2) \<noteq> Fin (sum_list [1, 2 ^ 53, 2])"
proof -
  have a: "fl (1 + 2 ^ 53) = Fin (2 ^ 53)"
    using fl_at[of 53 "1 + 2 ^ 53"] by (simp add: rne_def)
  have b: "fl (2 ^ 53 + 2) = Fin (2 ^ 53 + 2)"
    using fl_dyadic[of "2 ^ 52 + 1" 1] by simp
  have c: "fl (2 ^ 53) = Fin (2 ^ 53)"
    using fl_dyadic[of "2 ^ 52" 1] by simp
  have "nearestNeighbor [[Fin 0, Fin 1, Fin 5], [Fin 1, Fin 0, Fin (2 ^ 53)], [Fin 2, Fin (2 ^ 53), Fin 0]] 0 =
     Inr \<lparr>tour = [0, 1, 2, 0], totalDistance = Fin (2 ^ 53 + 2), allVisited = True, numCitiesVisited = 3\<rparr>"
    using a b
    by (simp add: nearestNeighbor_def Let_def cell_def fl_int upt_rec eval_nat_numeral)
  with c show ?thesis
    by (simp add: finite_matrix_def square_def legs_def)
qed

text \<open>
  Claim C3, as amended: on a square matrix of finite distances (non-negative or not)
  with the start city in range, the returned tour is the start city, then every other
  city exactly once, then the start city again; and the total distance is the legs of
  the tour added one after the other, from the first, in double precision.
\<close>

theorem tour_visits_every_city_once:
  assumes "finite_matrix D" and "startCity < length D"
  shows "\<exists>r mid. nearestNeighbor D startCity = Inr r \<and>
           tour r = startCity # mid @ [startCity] \<and>
           distinct mid \<and> set mid = {c. c < length D \<and> c \<noteq> startCity} \<and>
           totalDistance r = foldl js_add (Fin 0) (legs D (tour r))"
proof -
  from assms(2) have "length D - 1 < length D" by simp
  from visit_steps_finite[OF assms this] obtain visited t td cur where
    run: "(visit_step D ^^ (length D - 1))
           ((replicate (length D) False)[startCity := True], [startCity], Fin 0, startCity) = (visited, t, td, cur)"
    and ts: "tour_state (length D) startCity (visited, t, td, cur)"
    and len: "length t = Suc (length D - 1)" and td: "td = foldl js_add (Fin 0) (legs D t)"
    by blast
  from ts have inv: "cur < length D" "t \<noteq> []" "hd t = startCity" "last t = cur" "distinct t"
    "\<forall>c \<in> set t. c < length D"
    by (simp_all add: tour_state_def)
  from inv(2,3) obtain mid where mid: "t = startCity # mid"
    by (cases t) auto
  from inv(6) have "set t \<subseteq> {..< length D}" by auto
  moreover from inv(5) len assms(2) have "card (set t) = card {..< length D}"
    by (simp add: distinct_card)
  ultimately have all: "set t = {..< length D}"
    by (intro card_subset_eq) simp_all
  from inv(5) mid have dm: "distinct mid" "startCity \<notin> set mid" by simp_all
  from all mid dm(2) have sm: "set mid = {c. c < length D \<and> c \<noteq> startCity}"
    by auto
  from finite_matrix_cell(1)[OF assms(1) inv(1) assms(2)] td inv(2,4)
  have "js_add td (cell (D ! cur) startCity) = foldl js_add (Fin 0) (legs D (t @ [startCity]))"
    by (simp add: legs_snoc)
  with nearestNeighbor_unfold[OF assms(2) run] mid dm(1) sm show ?thesis
    by simp
qed

theorem tour_visits_every_city_once_witness:
  "finite_matrix [[Fin 0, Fin 10, Fin 15], [Fin 10, Fin 0, Fin 12], [Fin 15, Fin 12, Fin 0]] \<and>
   (0::nat) < length [[Fin 0, Fin 10, Fin 15], [Fin 10, Fin 0, Fin 12], [Fin 15, Fin 12, Fin 0]] \<and>
   nearestNeighbor [[Fin 0, Fin 10, Fin 15], [Fin 10, Fin 0, Fin 12], [Fin 15, Fin 12, Fin 0]] 0 =
     Inr \<lparr>tour = [0, 1, 2, 0], totalDistance = Fin 37, allVisited = True, numCitiesVisited = 3\<rparr> \<and>
   foldl js_add (Fin 0) (legs [[Fin 0, Fin 10, Fin 15], [Fin 10, Fin 0, Fin 12], [Fin 15, Fin 12, Fin 0]] [0, 1, 2, 0]) = Fin 37"
proof -
  have fm: "finite_matrix [[Fin 0, Fin 10, Fin 15], [Fin 10, Fin 0, Fin 12], [Fin 15, Fin 12, Fin 0]]"
    by (simp add: finite_matrix_def square_def)
  have run: "nearestNeighbor [[Fin 0, Fin 10, Fin 15], [Fin 10, Fin 0, Fin 12], [Fin 15, Fin 12, Fin 0]] 0 =
     Inr \<lparr>tour = [0, 1, 2, 0], totalDistance = Fin 37, allVisited = True, numCitiesVisited = 3\<rparr>"
    by (simp add: nearestNeighbor_def Let_def cell_def fl_int upt_rec eval_nat_numeral)
  from tour_visits_every_city_once[OF fm, of 0] run fm show ?thesis
    by simp
qed

section \<open>Properties of the fractional knapsack\<close>

subsection \<open>The selection loop\<close>

lemma fill_no_capacity: "\<not> js_less (Fin 0) cap \<Longrightarrow> fill xs (tp, cap, sel) = (tp, cap, sel)"
  by (cases xs) auto

lemma selected_fields [simp]:
  "fraction (item.extend b \<lparr>fraction = f, takenWeight = w, takenProfit = p\<rparr>) = f"
  "takenWeight (item.extend b \<lparr>fraction = f, takenWeight = w, takenProfit = p\<rparr>) = w"
  "takenProfit (item.extend b \<lparr>fraction = f, takenWeight = w, takenProfit = p\<rparr>) = p"
  by (simp_all add: item.defs)



subsection \<open>The exchange sort permutes its argument\<close>

lemma length_sort_inner: "length (sort_inner a i j xs) = length xs"
  by (simp add: sort_inner_def)

lemma mset_sort_inner: "i < length xs \<Longrightarrow> j < length xs \<Longrightarrow> mset (sort_inner a i j xs) = mset xs"
  by (simp add: sort_inner_def mset_swap)

lemma fold_sort_inner:
  "i < length xs \<Longrightarrow> \<forall>j \<in> set js. j < length xs \<Longrightarrow>
     length (fold (sort_inner a i) js xs) = length xs \<and> mset (fold (sort_inner a i) js xs) = mset xs"
  by (induction js arbitrary: xs) (simp_all add: length_sort_inner mset_sort_inner)

lemma fold_sort_outer:
  "length xs = n \<Longrightarrow> \<forall>i \<in> set ks. i < n \<Longrightarrow>
     length (fold (\<lambda>i bs. fold (sort_inner a i) [i + 1 ..< n] bs) ks xs) = n \<and>
     mset (fold (\<lambda>i bs. fold (sort_inner a i) [i + 1 ..< n] bs) ks xs) = mset xs"
proof (induction ks arbitrary: xs)
  case Nil
  then show ?case by simp
next
  case (Cons k ks)
  have "length (fold (sort_inner a k) [k + 1 ..< n] xs) = length xs \<and>
        mset (fold (sort_inner a k) [k + 1 ..< n] xs) = mset xs"
    using Cons.prems by (intro fold_sort_inner) auto
  with Cons.IH[of "fold (sort_inner a k) [k + 1 ..< n] xs"] Cons.prems show ?case
    by simp
qed

lemma mset_sortBoxes: "mset (sortBoxes xs a) = mset xs"
proof -
  have "\<forall>i \<in> set [0 ..< length xs - 1]. i < length xs"
    by auto
  with fold_sort_outer[of xs "length xs" "[0 ..< length xs - 1]" a] show ?thesis
    by (simp add: sortBoxes_def Let_def)
qed

lemma length_sortBoxes: "length (sortBoxes xs a) = length xs"
  using mset_sortBoxes[of xs a] by (metis size_mset)

subsection \<open>Capacity\<close>

text \<open>
  Claim C9: with capacity 0 the loop body never runs, for every item list and every
  approach: nothing is selected and the total profit is 0 (the string
  \<^verbatim>\<open>"0.00"\<close>).
\<close>

theorem zero_capacity_selects_nothing:
  "\<exists>r. fractionalKnapsack boxes a 0 = Inr r \<and> selectedBoxes r = [] \<and> totalProfit r = Fin 0"
  by (simp add: fractionalKnapsack_def fill_no_capacity toFixed2_def)

subsection \<open>No validation of the weights\<close>

lemma make_item_fields [simp]:
  "weight (make_item b i) = box_weight b"
  "profit (make_item b i) = box_profit b"
  "ratio (make_item b i) =
     (if box_weight b > 0 then js_div (Fin (box_profit b)) (Fin (box_weight b)) else Fin 0)"
  by (simp_all add: make_item_def)


lemma item_fields_extend [simp]:
  "weight (item.extend b m) = weight b"
  "profit (item.extend b m) = profit b"
  "ratio (item.extend b m) = ratio b"
  by (simp_all add: item.defs)



lemma string_of_nat_0: "string_of_nat 0 = ''0''"
  by code_simp

lemma string_of_nat_1: "string_of_nat (Suc 0) = ''1''"
  by code_simp

lemma string_of_nat_2: "string_of_nat (Suc (Suc 0)) = ''2''"
  by code_simp

declare string_of_nat.simps [simp del]

lemmas knapsack_eval =
  fractionalKnapsack_def sortBoxes_def sort_inner_def swap_needed_def make_item_def
  item.defs toFixed2_def Let_def upt_rec eval_nat_numeral string_of_nat_0 string_of_nat_1 string_of_nat_2



section \<open>The knapsack leaves the caller's array alone\<close>

lemma store_write_same: "h ! ad = v \<Longrightarrow> h[ad := v] = h"
  by (metis list_update_id)

lemma sort_inner_at_writes:
  "ad < length h \<Longrightarrow> h ! ad = Items xs \<Longrightarrow>
     sort_inner_at ad a i j h = h[ad := Items (sort_inner a i j xs)]"
  by (simp add: sort_inner_at_def sort_inner_def store_write_same)

lemma inner_loop_at_writes:
  "ad < length h \<Longrightarrow> h ! ad = Items xs \<Longrightarrow>
     fold (sort_inner_at ad a i) js h = h[ad := Items (fold (sort_inner a i) js xs)]"
proof (induction js arbitrary: h xs)
  case Nil
  then show ?case by (simp add: store_write_same)
next
  case (Cons j js)
  from Cons.prems have "sort_inner_at ad a i j h = h[ad := Items (sort_inner a i j xs)]"
    by (rule sort_inner_at_writes)
  moreover from Cons.prems(1)
  have "fold (sort_inner_at ad a i) js (h[ad := Items (sort_inner a i j xs)]) =
          (h[ad := Items (sort_inner a i j xs)])[ad := Items (fold (sort_inner a i) js (sort_inner a i j xs))]"
    by (intro Cons.IH) simp_all
  ultimately show ?case by simp
qed

lemma outer_loop_at_writes:
  "ad < length h \<Longrightarrow> h ! ad = Items xs \<Longrightarrow>
     fold (\<lambda>i h'. fold (sort_inner_at ad a i) [i + 1 ..< n] h') ks h =
       h[ad := Items (fold (\<lambda>i bs. fold (sort_inner a i) [i + 1 ..< n] bs) ks xs)]"
proof (induction ks arbitrary: h xs)
  case Nil
  then show ?case by (simp add: store_write_same)
next
  case (Cons k ks)
  from Cons.prems have "fold (sort_inner_at ad a k) [k + 1 ..< n] h =
      h[ad := Items (fold (sort_inner a k) [k + 1 ..< n] xs)]"
    by (rule inner_loop_at_writes)
  moreover from Cons.prems(1)
  have "fold (\<lambda>i h'. fold (sort_inner_at ad a i) [i + 1 ..< n] h') ks
          (h[ad := Items (fold (sort_inner a k) [k + 1 ..< n] xs)]) =
        (h[ad := Items (fold (sort_inner a k) [k + 1 ..< n] xs)])
          [ad := Items (fold (\<lambda>i bs. fold (sort_inner a i) [i + 1 ..< n] bs) ks
                          (fold (sort_inner a k) [k + 1 ..< n] xs))]"
    by (intro Cons.IH) simp_all
  ultimately show ?case by simp
qed

lemma sortBoxes_at_sorts:
  "sortBoxes_at (h @ [Items xs]) (length h) a = Some (h @ [Items (sortBoxes xs a)])"
proof -
  have "fold (\<lambda>i h'. fold (sort_inner_at (length h) a i) [i + 1 ..< length xs] h') [0 ..< length xs - 1] (h @ [Items xs]) =
          (h @ [Items xs])[length h := Items (sortBoxes xs a)]"
    unfolding sortBoxes_def Let_def by (intro outer_loop_at_writes) simp_all
  then show ?thesis
    by (simp add: sortBoxes_at_def Let_def)
qed

text \<open>
  Claim C7: a call on the array of boxes at address \<open>ad\<close> returns what the
  value-level \<open>fractionalKnapsack\<close> computes from its content, and leaves every
  array that existed before the call as it was, the caller's array and its records
  among them. The sorting happened in the array allocated by \<^verbatim>\<open>map\<close>, at the
  first fresh address.
\<close>

theorem caller_array_unchanged:
  assumes "ad < length h" and "h ! ad = Boxes boxes"
  shows "\<exists>h'. fractionalKnapsack_at h ad a truckCapacity = Some (h', fractionalKnapsack boxes a truckCapacity) \<and>
           h' ! ad = Boxes boxes \<and> (\<forall>p < length h. h' ! p = h ! p) \<and>
           h' ! length h = Items (sortBoxes (map (\<lambda>(b, i). make_item b i) (zip boxes [0 ..< length boxes])) a)"
proof -
  define items where "items = map (\<lambda>(b, i). make_item b i) (zip boxes [0 ..< length boxes])"
  define h2 where "h2 = h @ [Items (sortBoxes items a)]"
  have sorted: "sortBoxes_at (h @ [Items items]) (length h) a = Some h2"
    by (simp add: sortBoxes_at_sorts h2_def)
  obtain tp cap sel where f: "fill (sortBoxes items a) (Fin 0, Fin truckCapacity, []) = (tp, cap, sel)"
    using prod_cases3 by blast
  have temp: "h2 ! length h = Items (sortBoxes items a)"
    by (simp add: h2_def)
  have run: "fractionalKnapsack_at h ad a truckCapacity =
               Some (h2 @ [Selected sel], fractionalKnapsack boxes a truckCapacity)"
    using assms sorted temp f
    by (simp add: fractionalKnapsack_at_def fractionalKnapsack_def items_def [symmetric] Let_def)
  have old: "(h2 @ [Selected sel]) ! p = h ! p" if "p < length h" for p
    using that by (simp add: h2_def nth_append)
  have "(h2 @ [Selected sel]) ! length h = Items (sortBoxes items a)"
    by (simp add: h2_def nth_append)
  with run old assms show ?thesis
    by (simp add: items_def)
qed

theorem caller_array_unchanged_witness:
  "(0::nat) < length [Boxes [\<lparr>box_index = None, box_weight = 10, box_profit = 60, box_name = None\<rparr>,
                            \<lparr>box_index = None, box_weight = 15, box_profit = 120, box_name = None\<rparr>]] \<and>
   map_option fst (fractionalKnapsack_at
      [Boxes [\<lparr>box_index = None, box_weight = 10, box_profit = 60, box_name = None\<rparr>,
              \<lparr>box_index = None, box_weight = 15, box_profit = 120, box_name = None\<rparr>]] 0 3 20) =
     Some [Boxes [\<lparr>box_index = None, box_weight = 10, box_profit = 60, box_name = None\<rparr>,
                  \<lparr>box_index = None, box_weight = 15, box_profit = 120, box_name = None\<rparr>],
           Items [\<lparr>index = 1, weight = 15, profit = 120, name = ''Box 1'', ratio = Fin 8\<rparr>,
                  \<lparr>index = 0, weight = 10, profit = 60, name = ''Box 0'', ratio = Fin 6\<rparr>],
           Selected [\<lparr>index = 1, weight = 15, profit = 120, name = ''Box 1'', ratio = Fin 8,
                       fraction = Fin 1, takenWeight = Fin 15, takenProfit = Fin 120\<rparr>,
                     \<lparr>index = 0, weight = 10, profit = 60, name = ''Box 0'', ratio = Fin 6,
                       fraction = Fin (1 / 2), takenWeight = Fin 5, takenProfit = Fin 30\<rparr>]]"
proof -
  have run: "map_option fst (fractionalKnapsack_at
      [Boxes [\<lparr>box_index = None, box_weight = 10, box_profit = 60, box_name = None\<rparr>,
              \<lparr>box_index = None, box_weight = 15, box_profit = 120, box_name = None\<rparr>]] 0 3 20) =
     Some [Boxes [\<lparr>box_index = None, box_weight = 10, box_profit = 60, box_name = None\<rparr>,
                  \<lparr>box_index = None, box_weight = 15, box_profit = 120, box_name = None\<rparr>],
           Items [\<lparr>index = 1, weight = 15, profit = 120, name = ''Box 1'', ratio = Fin 8\<rparr>,
                  \<lparr>index = 0, weight = 10, profit = 60, name = ''Box 0'', ratio = Fin 6\<rparr>],
           Selected [\<lparr>index = 1, weight = 15, profit = 120, name = ''Box 1'', ratio = Fin 8,
                       fraction = Fin 1, takenWeight = Fin 15, takenProfit = Fin 120\<rparr>,
                     \<lparr>index = 0, weight = 10, profit = 60, name = ''Box 0'', ratio = Fin 6,
                       fraction = Fin (1 / 2), takenWeight = Fin 5, takenProfit = Fin 30\<rparr>]]"
    using fl_dyadic[of 1 "- 1"]
    by (simp add: fractionalKnapsack_at_def sortBoxes_at_def sort_inner_at_def knapsack_eval fl_int)
  from caller_array_unchanged[of 0 "[Boxes [\<lparr>box_index = None, box_weight = 10, box_profit = 60, box_name = None\<rparr>,
              \<lparr>box_index = None, box_weight = 15, box_profit = 120, box_name = None\<rparr>]]" _ 3 20] run
  show ?thesis by simp
qed

end
